theory Spec2Isabelle
  imports Main "HOL-Library.FSet" "HOL-Library.AList"
begin

section \<open>Python values\<close>

text \<open>
  A Python \<open>str\<close> is a \<open>string\<close>. ASCII characters stand for themselves; the accented
  letters and the arrow of the French messages are written as their UTF-8 bytes.
  Python's unbounded \<open>int\<close> is \<open>int\<close>. The float \<open>avg_response_time\<close> is computed in
  exact rational arithmetic (rounding is not modelled); a float that is only compared
  (\<open>rate_limit\<close>) keeps its special values, see \<open>pyfloat\<close>.
\<close>

datatype py_error = ValueError | ZeroDivisionError | KeyError | RequestError

text \<open>Truth value of an \<open>Optional[int]\<close> in a condition: \<open>None\<close> and \<open>0\<close> are false.\<close>

fun truthy :: "int option \<Rightarrow> bool" where
  "truthy None = False"
| "truthy (Some n) = (n \<noteq> 0)"

section \<open>models.py\<close>

record HeadingItem =
  level :: int
  text_h :: string
  position :: int

text \<open>
  \<open>PageResult\<close>: the fields that the functions below read or write. The other fields of the
  dataclass (title, meta description, link and word counts, cache headers, timestamp) are
  touched by none of them.
\<close>

record PageResult =
  url :: string
  status :: "int option"
  response_ms :: "int option"
  h1_count :: int
  issues :: "string list"
  headings_structure :: "HeadingItem list"
  headings_hierarchy_issues :: "string list"
  redirect_chain :: "string list"

definition new_PageResult :: "string \<Rightarrow> PageResult" where
  "new_PageResult u =
     \<lparr>url = u, status = None, response_ms = None, h1_count = 0, issues = [],
      headings_structure = [], headings_hierarchy_issues = [], redirect_chain = []\<rparr>"

record AuditSummary =
  total_pages :: int
  pages_with_issues :: int
  avg_response_time :: rat
  total_issues :: int
  common_issues :: "string \<rightharpoonup> int"
  status_codes :: "int \<rightharpoonup> int"

definition new_AuditSummary :: AuditSummary where
  "new_AuditSummary =
     \<lparr>total_pages = 0, pages_with_issues = 0, avg_response_time = 0, total_issues = 0,
      common_issues = Map.empty, status_codes = Map.empty\<rparr>"

text \<open>\<open>d[k] = d.get(k, 0) + 1\<close>\<close>

definition bump :: "('k \<rightharpoonup> int) \<Rightarrow> 'k \<Rightarrow> ('k \<rightharpoonup> int)" where
  "bump d k = d(k \<mapsto> (case d k of None \<Rightarrow> 0 | Some c \<Rightarrow> c) + 1)"

text \<open>
  \<open>AuditSummary.add_result\<close>. The division raises \<open>ZeroDivisionError\<close> when the incremented
  \<open>total_pages\<close> is 0; the exception leaves the object with the counters already updated,
  which is the summary returned beside the error.
\<close>

definition add_result ::
  "AuditSummary \<Rightarrow> PageResult \<Rightarrow> (py_error \<times> AuditSummary) + AuditSummary" where
  "add_result s r =
     (let s1 = s\<lparr>total_pages := total_pages s + 1\<rparr>;
          s2 = (if issues r \<noteq> []
                then s1\<lparr>pages_with_issues := pages_with_issues s1 + 1,
                        total_issues := total_issues s1 + int (length (issues r))\<rparr>
                else s1)
      in if truthy (response_ms r) \<and> total_pages s2 = 0 then Inl (ZeroDivisionError, s2)
         else
           let s3 = (if truthy (response_ms r)
                     then s2\<lparr>avg_response_time :=
                            (avg_response_time s2 * of_int (total_pages s2 - 1)
                               + of_int (the (response_ms r)))
                            / of_int (total_pages s2)\<rparr>
                     else s2);
               s4 = (if truthy (status r)
                     then s3\<lparr>status_codes := bump (status_codes s3) (the (status r))\<rparr>
                     else s3)
           in Inr (s4\<lparr>common_issues := foldl bump (common_issues s4) (issues r)\<rparr>))"

text \<open>
  The successive calls \<open>self.summary.add_result(result)\<close> that \<open>run_audit\<close> makes, one per
  record, in order; the first exception ends them.
\<close>

fun add_results ::
  "AuditSummary \<Rightarrow> PageResult list \<Rightarrow> (py_error \<times> AuditSummary) + AuditSummary" where
  "add_results s [] = Inr s"
| "add_results s (r # rs) =
     (case add_result s r of Inl e \<Rightarrow> Inl e | Inr s' \<Rightarrow> add_results s' rs)"

text \<open>The arithmetic mean of a list of latencies.\<close>

definition mean :: "int list \<Rightarrow> rat" where
  "mean xs = of_int (sum_list xs) / of_nat (length xs)"

text \<open>
  The specification's reading: the latencies of the records whose latency is not null.
\<close>

definition spec_nonnull_latencies :: "PageResult list \<Rightarrow> int list" where
  "spec_nonnull_latencies rs = List.map_filter response_ms rs"

text \<open>The latencies that pass the test \<open>if result.response_ms:\<close> (not null and not 0).\<close>

definition counted_latencies :: "PageResult list \<Rightarrow> int list" where
  "counted_latencies rs = filter (\<lambda>n. n \<noteq> 0) (List.map_filter response_ms rs)"

definition with_latency :: "int option \<Rightarrow> string list \<Rightarrow> PageResult" where
  "with_latency l is = (new_PageResult ''https://example.com/page'')\<lparr>response_ms := l, issues := is\<rparr>"

section \<open>Properties of the summary\<close>

lemma add_result_Inr:
  "0 \<le> total_pages s \<Longrightarrow> \<exists>s'. add_result s r = Inr s'"
  by (simp add: add_result_def Let_def)

lemma add_result_total_pages:
  "add_result s r = Inr s' \<Longrightarrow> total_pages s' = total_pages s + 1"
  by (auto simp: add_result_def Let_def split: if_splits)

lemma add_result_pages_with_issues:
  "add_result s r = Inr s' \<Longrightarrow>
     pages_with_issues s' = pages_with_issues s + (if issues r \<noteq> [] then 1 else 0)"
  by (auto simp: add_result_def Let_def split: if_splits)

lemma add_result_avg_skip:
  "\<not> truthy (response_ms r) \<Longrightarrow> add_result s r = Inr s' \<Longrightarrow>
     avg_response_time s' = avg_response_time s"
  by (auto simp: add_result_def Let_def split: if_splits)

lemma add_result_avg_step:
  "truthy (response_ms r) \<Longrightarrow> add_result s r = Inr s' \<Longrightarrow>
     avg_response_time s' =
       (avg_response_time s * of_int (total_pages s) + of_int (the (response_ms r)))
         / of_int (total_pages s + 1)"
  by (auto simp: add_result_def Let_def split: if_splits)

lemma add_results_append:
  "add_results s (xs @ ys) =
     (case add_results s xs of Inl e \<Rightarrow> Inl e | Inr s' \<Rightarrow> add_results s' ys)"
  by (induction xs arbitrary: s) (auto split: sum.splits)

lemma add_results_Inr:
  "0 \<le> total_pages s \<Longrightarrow> \<exists>s'. add_results s rs = Inr s'"
proof (induction rs arbitrary: s)
  case Nil
  then show ?case by simp
next
  case (Cons r rs)
  from add_result_Inr [OF Cons.prems] obtain s1 where s1: "add_result s r = Inr s1" by blast
  then have "0 \<le> total_pages s1" using Cons.prems by (simp add: add_result_total_pages)
  from Cons.IH [OF this] show ?case using s1 by simp
qed

lemma add_results_total_pages:
  "add_results s rs = Inr s' \<Longrightarrow> total_pages s' = total_pages s + int (length rs)"
proof (induction rs arbitrary: s)
  case Nil
  then show ?case by simp
next
  case (Cons r rs)
  then show ?case
    by (auto split: sum.splits dest!: add_result_total_pages)
qed

lemma add_results_pages_with_issues:
  "add_results s rs = Inr s' \<Longrightarrow>
     pages_with_issues s' = pages_with_issues s + int (length (filter (\<lambda>r. issues r \<noteq> []) rs))"
proof (induction rs arbitrary: s)
  case Nil
  then show ?case by simp
next
  case (Cons r rs)
  then show ?case
    by (auto split: sum.splits dest!: add_result_pages_with_issues)
qed

lemma add_results_avg_skip:
  "\<forall>r\<in>set rs. \<not> truthy (response_ms r) \<Longrightarrow> add_results s rs = Inr s' \<Longrightarrow>
     avg_response_time s' = avg_response_time s"
proof (induction rs arbitrary: s)
  case Nil
  then show ?case by simp
next
  case (Cons r rs)
  then show ?case
    by (auto split: sum.splits dest!: add_result_avg_skip)
qed

lemma add_results_avg_sum:
  "\<forall>r\<in>set ps. truthy (response_ms r) \<Longrightarrow> 0 \<le> total_pages s \<Longrightarrow> add_results s ps = Inr s' \<Longrightarrow>
     avg_response_time s' * of_int (total_pages s') =
       avg_response_time s * of_int (total_pages s) + of_int (sum_list (map (\<lambda>r. the (response_ms r)) ps))"
proof (induction ps arbitrary: s)
  case Nil
  then show ?case by simp
next
  case (Cons r ps)
  from add_result_Inr [OF Cons.prems(2)] obtain s1 where s1: "add_result s r = Inr s1" by blast
  have tp: "total_pages s1 = total_pages s + 1" using s1 by (rule add_result_total_pages)
  have r: "truthy (response_ms r)" using Cons.prems(1) by simp
  have pos: "(of_int (total_pages s + 1) :: rat) \<noteq> 0" using Cons.prems(2) by (simp add: of_int_eq_0_iff) 
  have a1: "avg_response_time s1 * of_int (total_pages s1) =
      avg_response_time s * of_int (total_pages s) + of_int (the (response_ms r))"
    using add_result_avg_step [OF r s1] pos by (simp add: tp)
  have rest: "add_results s1 ps = Inr s'" using Cons.prems(3) s1 by simp
  have "avg_response_time s' * of_int (total_pages s') =
       avg_response_time s1 * of_int (total_pages s1) + of_int (sum_list (map (\<lambda>r. the (response_ms r)) ps))"
    using Cons.IH [of s1] Cons.prems(1,2) rest tp by simp
  then show ?case using a1 by simp
qed

lemma counted_latencies_split:
  "\<forall>r\<in>set ps. truthy (response_ms r) \<Longrightarrow> \<forall>r\<in>set qs. \<not> truthy (response_ms r) \<Longrightarrow>
     counted_latencies (ps @ qs) = map (\<lambda>r. the (response_ms r)) ps"
proof -
  have a: "\<forall>r\<in>set ps. truthy (response_ms r) \<Longrightarrow> counted_latencies ps = map (\<lambda>r. the (response_ms r)) ps" for ps
  proof (induction ps)
    case Nil then show ?case by (simp add: counted_latencies_def List.map_filter_simps)
  next
    case (Cons r ps)
    then show ?case by (cases "response_ms r") (auto simp: counted_latencies_def List.map_filter_simps)
  qed
  have b: "\<forall>r\<in>set qs. \<not> truthy (response_ms r) \<Longrightarrow> counted_latencies qs = []" for qs
  proof (induction qs)
    case Nil then show ?case by (simp add: counted_latencies_def List.map_filter_simps)
  next
    case (Cons r ps)
    then show ?case by (cases "response_ms r") (auto simp: counted_latencies_def List.map_filter_simps)
  qed
  have c: "counted_latencies (ps @ qs) = counted_latencies ps @ counted_latencies qs"
    by (simp add: counted_latencies_def List.map_filter_def)
  assume "\<forall>r\<in>set ps. truthy (response_ms r)" "\<forall>r\<in>set qs. \<not> truthy (response_ms r)"
  then show ?thesis using a b c by simp
qed

lemma running_mean_prefix:
  assumes ps: "\<forall>r\<in>set ps. truthy (response_ms r)" and qs: "\<forall>r\<in>set qs. \<not> truthy (response_ms r)"
    and ne: "ps \<noteq> []"
  shows "\<exists>s. add_results new_AuditSummary (ps @ qs) = Inr s \<and>
             avg_response_time s = mean (counted_latencies (ps @ qs))"
proof -
  have z: "0 \<le> total_pages new_AuditSummary" by (simp add: new_AuditSummary_def)
  from add_results_Inr [OF z] obtain s1 where s1: "add_results new_AuditSummary ps = Inr s1" by blast
  have tp: "total_pages s1 = int (length ps)"
    using add_results_total_pages [OF s1] by (simp add: new_AuditSummary_def)
  then have "0 \<le> total_pages s1" by simp
  from add_results_Inr [OF this] obtain s2 where s2: "add_results s1 qs = Inr s2" by blast
  have all: "add_results new_AuditSummary (ps @ qs) = Inr s2"
    using s1 s2 by (simp add: add_results_append)
  have "avg_response_time s1 * of_int (total_pages s1) = of_int (sum_list (map (\<lambda>r. the (response_ms r)) ps))"
    using add_results_avg_sum [OF ps z s1] by (simp add: new_AuditSummary_def)
  moreover have "(of_nat (length ps) :: rat) \<noteq> 0" using ne by simp
  ultimately have "avg_response_time s1 = mean (map (\<lambda>r. the (response_ms r)) ps)"
    by (simp add: mean_def tp field_simps)
  moreover have "avg_response_time s2 = avg_response_time s1"
    using add_results_avg_skip [OF qs s2] .
  ultimately show ?thesis using all counted_latencies_split [OF ps qs] by simp
qed

lemma running_means_example:
  assumes "response_ms r1 = Some 500" "response_ms r2 = Some 300" "response_ms r3 = Some 200"
  shows "\<exists>s1 s2 s3. add_results new_AuditSummary [r1] = Inr s1
               \<and> add_results new_AuditSummary [r1, r2] = Inr s2
               \<and> add_results new_AuditSummary [r1, r2, r3] = Inr s3
               \<and> avg_response_time s1 = 500 \<and> avg_response_time s2 = 400
               \<and> \<bar>avg_response_time s3 - 33333 / 100\<bar> \<le> 1 / 100"
proof -
  have t: "truthy (response_ms r1)" "truthy (response_ms r2)" "truthy (response_ms r3)"
    using assms by simp_all
  have m1: "mean (counted_latencies [r1]) = 500"
    and m2: "mean (counted_latencies [r1, r2]) = 400"
    and m3: "mean (counted_latencies [r1, r2, r3]) = 1000 / 3"
    using assms by (simp_all add: counted_latencies_def mean_def List.map_filter_simps)
  from running_mean_prefix [of "[r1]" "[]"] t m1
  obtain s1 where s1: "add_results new_AuditSummary [r1] = Inr s1" "avg_response_time s1 = 500"
    by auto
  from running_mean_prefix [of "[r1, r2]" "[]"] t m2
  obtain s2 where s2: "add_results new_AuditSummary [r1, r2] = Inr s2" "avg_response_time s2 = 400"
    by auto
  from running_mean_prefix [of "[r1, r2, r3]" "[]"] t m3
  obtain s3 where s3: "add_results new_AuditSummary [r1, r2, r3] = Inr s3"
    "avg_response_time s3 = 1000 / 3"
    by auto
  have "\<bar>avg_response_time s3 - 33333 / 100\<bar> \<le> 1 / 100" unfolding s3(2) by simp
  with s1 s2 s3(1) show ?thesis by blast
qed
text \<open>
  Claim C1 on the code. The update divides by \<open>total_pages\<close>, which also counts the records
  whose latency was skipped, so the value is the mean only while every record so far has a
  latency (lemma \<open>running_mean_prefix\<close>). A record without latency (a page that timed out)
  followed by a record of 500 ms gives the average 250, where the mean of the non-null
  latencies is 500; after 500, none, 300 the average is 1300/3, where the mean is 400.
  On these inputs the exact arithmetic of the model and the double arithmetic of Python
  agree to well within 0.01 (250 and 500 are computed without rounding).
\<close>

theorem add_result_mean_denominator:
  "add_results new_AuditSummary [with_latency None [], with_latency (Some 500) []]
     = Inr (new_AuditSummary\<lparr>total_pages := 2, avg_response_time := 250\<rparr>)
   \<and> mean (spec_nonnull_latencies [with_latency None [], with_latency (Some 500) []]) = 500
   \<and> avg_response_time
        (projr (add_results new_AuditSummary [with_latency None [], with_latency (Some 500) []]))
       \<noteq> mean (spec_nonnull_latencies [with_latency None [], with_latency (Some 500) []])
   \<and> avg_response_time
        (projr (add_results new_AuditSummary
           [with_latency (Some 500) [], with_latency None [], with_latency (Some 300) []]))
       = 1300 / 3
   \<and> mean (spec_nonnull_latencies
        [with_latency (Some 500) [], with_latency None [], with_latency (Some 300) []]) = 400"
  by (simp add: add_result_def new_AuditSummary_def Let_def with_latency_def new_PageResult_def
        mean_def spec_nonnull_latencies_def List.map_filter_simps)

text \<open>
  Claim C10. A record whose latency is exactly 0 is handled as the same record with no
  latency: \<open>add_result\<close> returns, leaves \<open>avg_response_time\<close> unchanged and increments
  \<open>total_pages\<close>. A status of 0 leaves \<open>status_codes\<close> unchanged, and no call ever changes
  the entry of key 0.
\<close>
theorem add_result_zero_latency:
  "(response_ms r = Some 0 \<longrightarrow>
      add_result s r = add_result s (r\<lparr>response_ms := None\<rparr>)
      \<and> (\<exists>s'. add_result s r = Inr s' \<and> avg_response_time s' = avg_response_time s
                \<and> total_pages s' = total_pages s + 1))
   \<and> (status r = Some 0 \<longrightarrow> (\<forall>s'. add_result s r = Inr s' \<longrightarrow> status_codes s' = status_codes s))
   \<and> (\<forall>s'. add_result s r = Inr s' \<longrightarrow> status_codes s' 0 = status_codes s 0)"
  by (cases "status r"; cases "response_ms r")
     (auto simp: add_result_def Let_def bump_def split: if_splits)

theorem add_result_zero_latency_witness:
  "\<exists>s'. add_result new_AuditSummary
            ((new_PageResult ''https://example.com/'')\<lparr>status := Some 0, response_ms := Some 0\<rparr>)
          = Inr s'
        \<and> avg_response_time s' = 0 \<and> total_pages s' = 1 \<and> status_codes s' = Map.empty"
proof -
  let ?r = "(new_PageResult ''https://example.com/'')\<lparr>status := Some 0, response_ms := Some 0\<rparr>"
  have l: "response_ms ?r = Some 0" and c: "status ?r = Some 0" by simp_all
  note T = add_result_zero_latency [of ?r new_AuditSummary]
  from T l obtain s' where s': "add_result new_AuditSummary ?r = Inr s'"
    and a: "avg_response_time s' = avg_response_time new_AuditSummary"
    and t: "total_pages s' = total_pages new_AuditSummary + 1" by blast
  from T c s' have "status_codes s' = status_codes new_AuditSummary" by blast
  with s' a t show ?thesis by (simp add: new_AuditSummary_def)
qed

section \<open>Strings\<close>

definition startswith :: "string \<Rightarrow> string \<Rightarrow> bool" where
  "startswith s p = (take (length p) s = p)"

text \<open>\<open>k in s\<close> for strings: \<open>k\<close> occurs in \<open>s\<close> as a block.\<close>

fun contains :: "string \<Rightarrow> string \<Rightarrow> bool" where
  "contains [] k = (k = [])"
| "contains (c # cs) k = (startswith (c # cs) k \<or> contains cs k)"

text \<open>\<open>str.lower()\<close> on ASCII letters; every other character is kept.\<close>

definition lower_char :: "char \<Rightarrow> char" where
  "lower_char c =
     (case map_of (zip ''ABCDEFGHIJKLMNOPQRSTUVWXYZ'' ''abcdefghijklmnopqrstuvwxyz'') c of
        Some l \<Rightarrow> l
      | None \<Rightarrow> c)"

definition py_lower :: "string \<Rightarrow> string" where
  "py_lower s = map lower_char s"

text \<open>\<open>str(n)\<close> for an integer: decimal digits, with a minus sign below zero.\<close>

definition digit_char :: "nat \<Rightarrow> char" where
  "digit_char d = ''0123456789'' ! d"

function str_nat :: "nat \<Rightarrow> string" where
  "str_nat n = (if n < 10 then [digit_char n] else str_nat (n div 10) @ [digit_char (n mod 10)])"
  by pat_completeness auto
termination
  by (relation "measure (\<lambda>n. n)") auto

declare str_nat.simps [simp del]

definition str_int :: "int \<Rightarrow> string" where
  "str_int i = (if i < 0 then CHR ''-'' # str_nat (nat (- i)) else str_nat (nat i))"

text \<open>
  Whitespace as \<open>str.strip()\<close> and the pattern \<open>\s\<close> see it, among the ASCII characters:
  tab, newline, vertical tab, form feed, carriage return, the separators 0x1C to 0x1F and
  the space. The whitespace characters outside ASCII (the no-break space and others) are
  not covered: the texts of the model are ASCII.
\<close>

definition is_space :: "char \<Rightarrow> bool" where
  "is_space c = ((of_char c :: nat) \<in> {9, 10, 11, 12, 13, 28, 29, 30, 31, 32})"

definition strip :: "string \<Rightarrow> string" where
  "strip s = rev (dropWhile is_space (rev (dropWhile is_space s)))"

text \<open>
  \<open>re.sub(r'\s+', ' ', text)\<close>: every maximal run of whitespace becomes one space. The flag
  says that the previous character was whitespace (the run has been replaced already).
\<close>

fun sub_spaces :: "bool \<Rightarrow> string \<Rightarrow> string" where
  "sub_spaces in_run [] = []"
| "sub_spaces in_run (c # cs) =
     (if is_space c then (if in_run then sub_spaces True cs else CHR '' '' # sub_spaces True cs)
      else c # sub_spaces False cs)"

definition clean_text :: "string \<Rightarrow> string" where
  "clean_text t = (if t = [] then [] else strip (sub_spaces False t))"

section \<open>analyzers.py: heading structure\<close>

text \<open>The non-ASCII characters of the messages, as UTF-8 bytes.\<close>

definition e_acute :: string where "e_acute = [CHR 0xC3, CHR 0xA9]"
definition e_grave :: string where "e_grave = [CHR 0xC3, CHR 0xA8]"
definition e_circ :: string where "e_circ = [CHR 0xC3, CHR 0xAA]"
definition arrow :: string where "arrow = [CHR 0xE2, CHR 0x86, CHR 0x92]"

definition msg_no_headings :: string where
  "msg_no_headings = ''Aucun titre trouv'' @ e_acute"

definition msg_first_not_h1 :: "int \<Rightarrow> string" where
  "msg_first_not_h1 l =
     ''Le premier titre est H'' @ str_int l @ '', devrait '' @ e_circ @ ''tre H1''"

definition msg_no_h1 :: string where
  "msg_no_h1 = ''Aucun titre H1 trouv'' @ e_acute"

definition msg_multiple_h1 :: "int \<Rightarrow> string" where
  "msg_multiple_h1 n = ''Plusieurs titres H1 trouv'' @ e_acute @ ''s ('' @ str_int n @ '')''"

definition msg_skip :: "int \<Rightarrow> int \<Rightarrow> string" where
  "msg_skip p c =
     ''Saut de niveau de titre: H'' @ str_int p @ '' '' @ arrow @ '' H'' @ str_int c
       @ '' (H'' @ str_int (p + 1) @ '' manquant)''"

definition msg_empty_headings :: "int \<Rightarrow> string" where
  "msg_empty_headings n = str_int n @ '' titres vides trouv'' @ e_acute @ ''s''"

definition msg_long_headings :: "int \<Rightarrow> string" where
  "msg_long_headings n =
     str_int n @ '' titres trop longs (>70 caract'' @ e_grave @ ''res)''"

text \<open>The loop over the headings that tracks \<open>prev_level\<close>.\<close>

fun skip_loop :: "int \<Rightarrow> HeadingItem list \<Rightarrow> string list" where
  "skip_loop prev_level [] = []"
| "skip_loop prev_level (h # hs) =
     (if prev_level > 0 \<and> level h > prev_level + 1 then [msg_skip prev_level (level h)] else [])
       @ skip_loop (level h) hs"

text \<open>
  The local list \<open>issues\<close> that \<open>_validate_heading_hierarchy\<close> builds for a non-empty list of
  headings, in the order of the checks. \<open>len(h.text)\<close> is the length of the list, which is
  Python's count for an ASCII heading text.
\<close>

definition hierarchy_issues :: "HeadingItem list \<Rightarrow> string list" where
  "hierarchy_issues headings =
     (let h1_headings = filter (\<lambda>h. level h = 1) headings;
          empty_headings = filter (\<lambda>h. strip (text_h h) = []) headings;
          long_headings = filter (\<lambda>h. length (text_h h) > 70) headings
      in (if level (hd headings) \<noteq> 1 then [msg_first_not_h1 (level (hd headings))] else [])
         @ (if h1_headings = [] then [msg_no_h1]
            else if length h1_headings > 1 then [msg_multiple_h1 (int (length h1_headings))]
            else [])
         @ skip_loop 0 headings
         @ (if empty_headings \<noteq> [] then [msg_empty_headings (int (length empty_headings))] else [])
         @ (if long_headings \<noteq> [] then [msg_long_headings (int (length long_headings))] else []))"

definition promoted_keywords :: "string list" where
  "promoted_keywords = [''no h1'', ''multiple h1'', ''skip'', ''no headings'']"

text \<open>\<open>any(keyword in issue.lower() for keyword in [...])\<close>\<close>

definition significant :: "string \<Rightarrow> bool" where
  "significant issue = list_ex (\<lambda>keyword. contains (py_lower issue) keyword) promoted_keywords"

definition validate_heading_hierarchy :: "HeadingItem list \<Rightarrow> PageResult \<Rightarrow> PageResult" where
  "validate_heading_hierarchy headings result =
     (if headings = []
      then result\<lparr>headings_hierarchy_issues := headings_hierarchy_issues result @ [msg_no_headings],
                  issues := issues result @ [msg_no_headings]\<rparr>
      else
        let found = hierarchy_issues headings
        in result\<lparr>headings_hierarchy_issues := found,
                  issues := issues result
                    @ map (\<lambda>issue. ''Structure des titres: '' @ issue) (filter significant found)\<rparr>)"

text \<open>
  The parsed document, as far as heading analysis reads it: its heading elements in
  document order, each with the number of its tag (\<open>h1\<close> to \<open>h6\<close>) and its text.
  \<open>tree.css('h3')\<close> selects the \<open>h3\<close> elements, in document order.
\<close>

type_synonym html_tree = "(int \<times> string) list"

definition css_h :: "html_tree \<Rightarrow> int \<Rightarrow> (int \<times> string) list" where
  "css_h tree l = filter (\<lambda>node. fst node = l) tree"

definition all_headings_elements :: "html_tree \<Rightarrow> (int \<times> string) list" where
  "all_headings_elements tree =
     concat (map (\<lambda>l. map (\<lambda>t. (l, take 100 t))
                        (filter (\<lambda>t. t \<noteq> [])
                           (map (\<lambda>heading. strip (clean_text (snd heading))) (css_h tree l))))
                 [1, 2, 3, 4, 5, 6])"

definition analyze_heading_structure :: "html_tree \<Rightarrow> PageResult \<Rightarrow> PageResult" where
  "analyze_heading_structure tree result =
     (let headings = map (\<lambda>(i, (l, t)). \<lparr>level = l, text_h = t, position = int i\<rparr>)
                         (enumerate 0 (all_headings_elements tree))
      in validate_heading_hierarchy headings (result\<lparr>headings_structure := headings\<rparr>))"

text \<open>A level-skip issue is a message that begins with \<open>Saut\<close>.\<close>

definition is_skip_issue :: "string \<Rightarrow> bool" where
  "is_skip_issue s = startswith s ''Saut''"

definition heading :: "int \<Rightarrow> string \<Rightarrow> int \<Rightarrow> HeadingItem" where
  "heading l t p = \<lparr>level = l, text_h = t, position = p\<rparr>"

section \<open>Properties of heading analysis\<close>

lemma skip_loop_zip:
  "skip_loop p hs =
     map (\<lambda>(p, c). msg_skip p c)
       (filter (\<lambda>(p, c). 0 < p \<and> p + 1 < c) (zip (p # map level hs) (map level hs)))"
  by (induction hs arbitrary: p) auto

lemma str_nat_hd: "str_nat n \<noteq> [] \<and> hd (str_nat n) \<in> set ''0123456789''"
proof (induction n rule: str_nat.induct)
  case (1 n)
  show ?case
  proof (cases "n < 10")
    case True
    then have "n \<in> {0, 1, 2, 3, 4, 5, 6, 7, 8, 9}" by auto
    then show ?thesis
      by (subst (1 2) str_nat.simps) (auto simp: digit_char_def)
  next
    case False
    with 1 show ?thesis
      by (subst (1 2) str_nat.simps) simp
  qed
qed

lemma str_int_hd: "str_int i \<noteq> [] \<and> hd (str_int i) \<in> set ''-0123456789''"
  using str_nat_hd [of "nat i"] by (auto simp: str_int_def)

lemma startswith_hd: "startswith s (c # p) \<Longrightarrow> s \<noteq> [] \<and> hd s = c"
  by (cases s) (auto simp: startswith_def)

lemma str_int_not_skip: "\<not> is_skip_issue (str_int n @ rest)"
proof
  assume "is_skip_issue (str_int n @ rest)"
  then have "hd (str_int n @ rest) = CHR ''S''"
    unfolding is_skip_issue_def by (auto dest: startswith_hd)
  then have "hd (str_int n) = CHR ''S''" using str_int_hd [of n] by simp
  then show False using str_int_hd [of n] by auto
qed

lemma is_skip_issue_simps:
  "is_skip_issue (msg_skip p c)"
  "\<not> is_skip_issue (msg_first_not_h1 l)"
  "\<not> is_skip_issue msg_no_h1"
  "\<not> is_skip_issue (msg_multiple_h1 n)"
  "\<not> is_skip_issue (msg_empty_headings n)"
  "\<not> is_skip_issue (msg_long_headings n)"
  by (simp_all add: msg_skip_def msg_first_not_h1_def msg_no_h1_def msg_multiple_h1_def
        msg_empty_headings_def msg_long_headings_def str_int_not_skip)
     (simp_all add: is_skip_issue_def startswith_def)

lemma filter_skip_loop: "filter is_skip_issue (skip_loop p hs) = skip_loop p hs"
  by (induction hs arbitrary: p) (simp_all add: is_skip_issue_simps)

lemma hierarchy_issues_skips:
  "filter is_skip_issue (hierarchy_issues hs) = skip_loop 0 hs"
  by (simp add: hierarchy_issues_def Let_def is_skip_issue_simps filter_skip_loop)

text \<open>
  Claim C8. With \<open>prev_level\<close> starting at 0, the level-skip issues recorded for a list of
  headings are, in order, one for each heading whose level exceeds \<open>prev_level + 1\<close> while
  \<open>prev_level > 0\<close>, where \<open>prev_level\<close> is the level of the heading before it; the message
  names the level \<open>prev_level + 1\<close> as missing. They are exactly the level-skip issues of
  the page's hierarchy-issue list. Headings of levels 1, 3 give one issue that names H2;
  levels 1, 2, 3 give none.
\<close>

theorem heading_level_skip:
  "skip_loop 0 hs =
     map (\<lambda>(p, c). msg_skip p c)
       (filter (\<lambda>(p, c). 0 < p \<and> p + 1 < c) (zip (0 # map level hs) (map level hs)))
   \<and> msg_skip p c =
       ''Saut de niveau de titre: H'' @ str_int p @ '' '' @ arrow @ '' H'' @ str_int c
         @ '' (H'' @ str_int (p + 1) @ '' manquant)''
   \<and> (hs \<noteq> [] \<longrightarrow>
        filter is_skip_issue (headings_hierarchy_issues (validate_heading_hierarchy hs r))
          = skip_loop 0 hs)
   \<and> (map level hs = [1, 3] \<longrightarrow>
        skip_loop 0 hs = [''Saut de niveau de titre: H1 '' @ arrow @ '' H3 (H2 manquant)''])
   \<and> (map level hs = [1, 2, 3] \<longrightarrow> skip_loop 0 hs = [])"
proof (intro conjI impI)
  show "skip_loop 0 hs =
     map (\<lambda>(p, c). msg_skip p c)
       (filter (\<lambda>(p, c). 0 < p \<and> p + 1 < c) (zip (0 # map level hs) (map level hs)))"
    by (rule skip_loop_zip)
next
  show "msg_skip p c =
       ''Saut de niveau de titre: H'' @ str_int p @ '' '' @ arrow @ '' H'' @ str_int c
         @ '' (H'' @ str_int (p + 1) @ '' manquant)''"
    by (simp add: msg_skip_def)
next
  assume "hs \<noteq> []"
  then show "filter is_skip_issue (headings_hierarchy_issues (validate_heading_hierarchy hs r))
          = skip_loop 0 hs"
    by (simp add: validate_heading_hierarchy_def Let_def hierarchy_issues_skips)
next
  assume "map level hs = [1, 3]"
  then show "skip_loop 0 hs = [''Saut de niveau de titre: H1 '' @ arrow @ '' H3 (H2 manquant)'']"
    unfolding skip_loop_zip
    by (simp add: msg_skip_def str_int_def str_nat.simps digit_char_def)
next
  assume "map level hs = [1, 2, 3]"
  then show "skip_loop 0 hs = []"
    unfolding skip_loop_zip by simp
qed

theorem heading_level_skip_witness:
  "filter is_skip_issue
     (headings_hierarchy_issues
        (validate_heading_hierarchy [heading 1 ''Introduction'' 0, heading 3 ''Details'' 1]
           (new_PageResult ''https://example.com/'')))
     = [''Saut de niveau de titre: H1 '' @ arrow @ '' H3 (H2 manquant)'']
   \<and> skip_loop 0 [heading 1 ''A'' 0, heading 2 ''B'' 1, heading 3 ''C'' 2] = []"
proof -
  let ?hs = "[heading 1 ''Introduction'' 0, heading 3 ''Details'' 1]"
  let ?ks = "[heading 1 ''A'' 0, heading 2 ''B'' 1, heading 3 ''C'' 2]"
  have a: "?hs \<noteq> []" by simp
  have b: "map level ?hs = [1, 3]" by (simp add: heading_def)
  have c: "map level ?ks = [1, 2, 3]" by (simp add: heading_def)
  note T = heading_level_skip [of ?hs 0 0 "new_PageResult ''https://example.com/''"]
  from T a have e1: "filter is_skip_issue
     (headings_hierarchy_issues
        (validate_heading_hierarchy ?hs (new_PageResult ''https://example.com/'')))
     = skip_loop 0 ?hs" by blast
  from T b have e2: "skip_loop 0 ?hs
     = [''Saut de niveau de titre: H1 '' @ arrow @ '' H3 (H2 manquant)'']" by blast
  from e1 e2 have "filter is_skip_issue
     (headings_hierarchy_issues
        (validate_heading_hierarchy ?hs (new_PageResult ''https://example.com/'')))
     = [''Saut de niveau de titre: H1 '' @ arrow @ '' H3 (H2 manquant)'']"
    by (rule trans)
  moreover from heading_level_skip [of ?ks 0 0 "new_PageResult ''https://example.com/''"] c
  have "skip_loop 0 ?ks = []" by blast
  ultimately show ?thesis by blast
qed

lemma validate_headings_structure:
  "headings_structure (validate_heading_hierarchy hs r) = headings_structure r"
  by (simp add: validate_heading_hierarchy_def Let_def)

lemma analyze_headings_structure:
  "headings_structure (analyze_heading_structure tree r) =
     map (\<lambda>(i, (l, t)). \<lparr>level = l, text_h = t, position = int i\<rparr>)
       (enumerate 0 (all_headings_elements tree))"
  by (simp add: analyze_heading_structure_def Let_def validate_headings_structure)

lemma enumerate_positions:
  "map position (map (\<lambda>(i, (l, t)). \<lparr>level = l, text_h = t, position = int i\<rparr>) (enumerate n xs))
     = map int [n..<n + length xs]"
proof (induction xs arbitrary: n)
  case Nil
  then show ?case by simp
next
  case (Cons x xs)
  have "[n..<n + length (x # xs)] = n # [Suc n..<Suc n + length xs]"
    by (subst upt_rec) simp
  with Cons [of "Suc n"] show ?case by (simp add: split_def)
qed

lemma enumerate_levels:
  "map level (map (\<lambda>(i, (l, t)). \<lparr>level = l, text_h = t, position = int i\<rparr>) (enumerate n xs))
     = map fst xs"
  by (induction xs arbitrary: n) (simp_all add: split_def)

lemma positions_dense:
  "map position (headings_structure (analyze_heading_structure tree r)) =
     map int [0..<length (headings_structure (analyze_heading_structure tree r))]"
  unfolding analyze_headings_structure
  using enumerate_positions [of 0 "all_headings_elements tree"] by simp

lemma levels_of_structure:
  "map level (headings_structure (analyze_heading_structure tree r)) =
     map fst (all_headings_elements tree)"
  unfolding analyze_headings_structure by (rule enumerate_levels)

lemma sorted_map_const: "sorted (map (\<lambda>x. c) xs)"
  by (induction xs) simp_all

lemma levels_sorted:
  "sorted (map level (headings_structure (analyze_heading_structure tree r)))"
  unfolding levels_of_structure
  by (auto simp: all_headings_elements_def sorted_append css_h_def comp_def sorted_map_const)

text \<open>
  Claim C3 on the code. The headings are collected tag by tag (\<open>h1\<close> first, then \<open>h2\<close>, up to
  \<open>h6\<close>), so the list is ordered by level and not by appearance: a document with an H3
  followed by an H1 gives the list H1, H3. The positions are the indices of that list.
\<close>

theorem headings_structure_order:
  "headings_structure
     (analyze_heading_structure [(3, ''Services''), (1, ''Accueil'')]
        (new_PageResult ''https://example.com/''))
     = [\<lparr>level = 1, text_h = ''Accueil'', position = 0\<rparr>,
        \<lparr>level = 3, text_h = ''Services'', position = 1\<rparr>]
   \<and> sorted (map level (headings_structure (analyze_heading_structure tree r)))
   \<and> map position (headings_structure (analyze_heading_structure tree r)) =
       map int [0..<length (headings_structure (analyze_heading_structure tree r))]"
proof (intro conjI)
  show "headings_structure
     (analyze_heading_structure [(3, ''Services''), (1, ''Accueil'')]
        (new_PageResult ''https://example.com/''))
     = [\<lparr>level = 1, text_h = ''Accueil'', position = 0\<rparr>,
        \<lparr>level = 3, text_h = ''Services'', position = 1\<rparr>]"
    unfolding analyze_headings_structure
    by (simp add: all_headings_elements_def css_h_def clean_text_def strip_def is_space_def
          enumerate_eq_zip)
next
  show "sorted (map level (headings_structure (analyze_heading_structure tree r)))"
    by (rule levels_sorted)
next
  show "map position (headings_structure (analyze_heading_structure tree r)) =
       map int [0..<length (headings_structure (analyze_heading_structure tree r))]"
    by (rule positions_dense)
qed

lemma digit_char_digit: "d < 10 \<Longrightarrow> digit_char d \<in> set ''0123456789''"
proof -
  assume "d < 10"
  then have "d \<in> {0, 1, 2, 3, 4, 5, 6, 7, 8, 9}" by auto
  then show ?thesis by (auto simp: digit_char_def)
qed

lemma str_nat_digits: "set (str_nat n) \<subseteq> set ''0123456789''"
proof (induction n rule: str_nat.induct)
  case (1 n)
  show ?case
  proof (cases "n < 10")
    case True
    then show ?thesis
      using digit_char_digit [of n] by (subst str_nat.simps) simp
  next
    case False
    have "digit_char (n mod 10) \<in> set ''0123456789''"
      by (rule digit_char_digit) simp
    with False 1 show ?thesis
      by (subst str_nat.simps) simp
  qed
qed

lemma str_int_digits: "set (str_int i) \<subseteq> set ''-0123456789''"
proof -
  have e: "set ''-0123456789'' = insert CHR ''-'' (set ''0123456789'')" by simp
  show ?thesis
  proof (cases "i < 0")
    case True
    then have "set (str_int i) = insert CHR ''-'' (set (str_nat (nat (- i))))"
      by (simp add: str_int_def)
    then show ?thesis unfolding e using str_nat_digits [of "nat (- i)"] by blast
  next
    case False
    then have "set (str_int i) = set (str_nat (nat i))" by (simp add: str_int_def)
    then show ?thesis unfolding e using str_nat_digits [of "nat i"] by blast
  qed
qed

lemma lower_digits: 
  assumes "c \<in> set ''-0123456789''" shows "lower_char c = c"
proof -
  have "list_all (\<lambda>c. lower_char c = c) ''-0123456789''"
    by (simp add: lower_char_def)
  then show ?thesis using assms unfolding list_all_iff by blast
qed
lemma contains_set: "contains s k \<Longrightarrow> set k \<subseteq> set s"
proof (induction s)
  case Nil
  then show ?case by simp
next
  case (Cons c cs)
  from Cons.prems have "startswith (c # cs) k \<or> contains cs k" by simp
  then show ?case
  proof
    assume "startswith (c # cs) k"
    then show ?thesis unfolding startswith_def by (metis set_take_subset)
  next
    assume "contains cs k"
    then have "set k \<subseteq> set cs" by (rule Cons.IH)
    then show ?thesis by auto
  qed
qed
lemma not_contains: "a \<in> set k \<Longrightarrow> a \<notin> set s \<Longrightarrow> \<not> contains s k"
  using contains_set [of s k] by blast
lemma not_significantI:
  assumes "a \<in> set ''no h''" and "a \<notin> set (py_lower m)"
    and "b \<in> set ''multiple h1''" and "b \<notin> set (py_lower m)"
    and "CHR ''k'' \<notin> set (py_lower m)"
  shows "\<not> significant m"
proof -
  from assms(1) have a1: "a \<in> set ''no h1''" and a2: "a \<in> set ''no headings''" by auto
  have "\<not> contains (py_lower m) ''no h1''"
    using a1 assms(2) by (rule not_contains)
  moreover have "\<not> contains (py_lower m) ''no headings''"
    using a2 assms(2) by (rule not_contains)
  moreover have "\<not> contains (py_lower m) ''multiple h1''"
    using assms(3,4) by (rule not_contains)
  moreover have "\<not> contains (py_lower m) ''skip''"
    by (rule not_contains [OF _ assms(5)]) simp
  ultimately show ?thesis by (simp add: significant_def promoted_keywords_def)
qed

lemma lower_str_int: "map lower_char (str_int i) = str_int i"
proof (rule map_idI)
  fix c assume "c \<in> set (str_int i)"
  then have "c \<in> set ''-0123456789''" using str_int_digits [of i] by blast
  then show "lower_char c = c" by (rule lower_digits)
qed

lemma str_int_letter:
  assumes "c \<notin> set ''-0123456789''"
  shows "c \<notin> set (str_int i)"
  using assms str_int_digits [of i] by blast

lemma not_significant_skip: "\<not> significant (msg_skip p c)"
  by (rule not_significantI [where a = "CHR ''o''" and b = "CHR ''l''"])
     (simp_all add: msg_skip_def py_lower_def lower_char_def lower_str_int str_int_letter
        arrow_def)

lemma not_significant_first: "\<not> significant (msg_first_not_h1 l)"
  by (rule not_significantI [where a = "CHR ''n''" and b = "CHR ''u''"])
     (simp_all add: msg_first_not_h1_def py_lower_def lower_char_def lower_str_int
        str_int_letter e_circ_def)

lemma not_significant_no_h1: "\<not> significant msg_no_h1"
  by (simp add: significant_def promoted_keywords_def msg_no_h1_def py_lower_def lower_char_def
        e_acute_def startswith_def)

lemma not_significant_multiple: "\<not> significant (msg_multiple_h1 n)"
  by (rule not_significantI [where a = "CHR ''n''" and b = "CHR ''m''"])
     (simp_all add: msg_multiple_h1_def py_lower_def lower_char_def lower_str_int
        str_int_letter e_acute_def)

lemma not_significant_empty: "\<not> significant (msg_empty_headings n)"
  by (rule not_significantI [where a = "CHR ''n''" and b = "CHR ''m''"])
     (simp_all add: msg_empty_headings_def py_lower_def lower_char_def lower_str_int
        str_int_letter e_acute_def)

lemma not_significant_long: "\<not> significant (msg_long_headings n)"
  by (rule not_significantI [where a = "CHR ''h''" and b = "CHR ''m''"])
     (simp_all add: msg_long_headings_def py_lower_def lower_char_def lower_str_int
        str_int_letter e_grave_def)

lemmas not_significant =
  not_significant_skip not_significant_first not_significant_no_h1 not_significant_multiple
  not_significant_empty not_significant_long

lemma filter_significant_skip_loop: "filter significant (skip_loop p hs) = []"
  by (induction hs arbitrary: p) (simp_all add: not_significant_skip)

lemma no_promotion: "filter significant (hierarchy_issues hs) = []"
  by (simp add: hierarchy_issues_def Let_def not_significant filter_significant_skip_loop)

text \<open>
  Claim C4 on the code. The gate looks for the English keywords \<open>no h1\<close>, \<open>multiple h1\<close>,
  \<open>skip\<close> and \<open>no headings\<close> in messages that are written in French, so no hierarchy issue
  of a page with headings is ever promoted: headings H1, H3 put the level-skip issue in the
  hierarchy-issue list and leave the general issue list as it was. Only the no-headings
  issue, appended to both lists without the gate, reaches the general list.
\<close>

theorem hierarchy_issues_not_promoted:
  "headings_hierarchy_issues
     (validate_heading_hierarchy [heading 1 ''Introduction'' 0, heading 3 ''Details'' 1]
        (new_PageResult ''https://example.com/''))
     = [''Saut de niveau de titre: H1 '' @ arrow @ '' H3 (H2 manquant)'']
   \<and> issues
       (validate_heading_hierarchy [heading 1 ''Introduction'' 0, heading 3 ''Details'' 1]
          (new_PageResult ''https://example.com/''))
     = []
   \<and> issues (validate_heading_hierarchy (h # hs) r) = issues r
   \<and> headings_hierarchy_issues (validate_heading_hierarchy [] r)
       = headings_hierarchy_issues r @ [msg_no_headings]
   \<and> issues (validate_heading_hierarchy [] r) = issues r @ [msg_no_headings]"
proof (intro conjI)
  show "headings_hierarchy_issues
     (validate_heading_hierarchy [heading 1 ''Introduction'' 0, heading 3 ''Details'' 1]
        (new_PageResult ''https://example.com/''))
     = [''Saut de niveau de titre: H1 '' @ arrow @ '' H3 (H2 manquant)'']"
    by (simp add: validate_heading_hierarchy_def hierarchy_issues_def heading_def msg_skip_def
          str_int_def str_nat.simps digit_char_def strip_def is_space_def)
next
  have "issues (validate_heading_hierarchy hs' r') = issues r'" if "hs' \<noteq> []" for hs' r'
    using that by (simp add: validate_heading_hierarchy_def Let_def no_promotion)
  then show "issues
       (validate_heading_hierarchy [heading 1 ''Introduction'' 0, heading 3 ''Details'' 1]
          (new_PageResult ''https://example.com/''))
     = []"
    and "issues (validate_heading_hierarchy (h # hs) r) = issues r"
    by (simp_all add: new_PageResult_def)
next
  show "headings_hierarchy_issues (validate_heading_hierarchy [] r)
       = headings_hierarchy_issues r @ [msg_no_headings]"
    and "issues (validate_heading_hierarchy [] r) = issues r @ [msg_no_headings]"
    by (simp_all add: validate_heading_hierarchy_def)
qed

section \<open>models.py: AuditConfig\<close>

text \<open>
  A float that the code only compares with 0: a finite value, an infinity or NaN. Every
  comparison with NaN is false.
\<close>

datatype pyfloat = Finite rat | PosInf | NegInf | NaN

fun float_lt_0 :: "pyfloat \<Rightarrow> bool" where
  "float_lt_0 (Finite q) = (q < 0)"
| "float_lt_0 NegInf = True"
| "float_lt_0 PosInf = False"
| "float_lt_0 NaN = False"

fun float_ge_0 :: "pyfloat \<Rightarrow> bool" where
  "float_ge_0 (Finite q) = (0 \<le> q)"
| "float_ge_0 PosInf = True"
| "float_ge_0 NegInf = False"
| "float_ge_0 NaN = False"

record AuditConfig =
  domain :: string
  max_pages :: int
  max_depth :: int
  rate_limit :: pyfloat
  timeout :: int
  user_agent :: string
  follow_redirects :: bool

definition new_AuditConfig :: "string \<Rightarrow> AuditConfig" where
  "new_AuditConfig d =
     \<lparr>domain = d, max_pages = 100, max_depth = 3, rate_limit = Finite 1, timeout = 15,
      user_agent = ''SEO-AuditBot/0.1'', follow_redirects = True\<rparr>"

section \<open>audit_engine.py: validate_config\<close>

definition validate_config :: "AuditConfig \<Rightarrow> bool" where
  "validate_config config =
     (if domain config = [] then False
      else if \<not> (startswith (domain config) ''http://'' \<or> startswith (domain config) ''https://'')
      then False
      else if max_pages config \<le> 0 then False
      else if float_lt_0 (rate_limit config) then False
      else True)"

lemma validate_config_accepts:
  "validate_config config =
     (domain config \<noteq> []
      \<and> (startswith (domain config) ''http://'' \<or> startswith (domain config) ''https://'')
      \<and> 0 < max_pages config
      \<and> \<not> float_lt_0 (rate_limit config))"
  by (auto simp: validate_config_def)

lemma validate_config_on_numbers:
  "rate_limit config \<noteq> NaN \<Longrightarrow>
     validate_config config =
       (domain config \<noteq> []
        \<and> (startswith (domain config) ''http://'' \<or> startswith (domain config) ''https://'')
        \<and> 0 < max_pages config
        \<and> float_ge_0 (rate_limit config))"
  by (cases "rate_limit config") (auto simp: validate_config_def)

text \<open>
  Claim C9 on the code. The last test of \<open>validate_config\<close> is \<open>rate_limit < 0\<close>, which is
  false for NaN: the configuration with domain \<open>https://example.com\<close>, the default page
  budget and a NaN rate limit (\<open>--rate-limit nan\<close>) is accepted, though its rate limit is not
  greater than or equal to 0. For every other rate limit the configuration is accepted
  exactly under the conditions of the claim (lemma \<open>validate_config_on_numbers\<close>).
\<close>

theorem validate_config_nan:
  "validate_config ((new_AuditConfig ''https://example.com'')\<lparr>rate_limit := NaN\<rparr>)
   \<and> \<not> float_ge_0 (rate_limit ((new_AuditConfig ''https://example.com'')\<lparr>rate_limit := NaN\<rparr>))"
  by (simp add: validate_config_def new_AuditConfig_def startswith_def)

section \<open>urllib.parse\<close>

text \<open>
  The functions of the standard library's \<open>urllib.parse\<close> that the repository calls,
  after CPython 3.11, on ASCII strings. Two validations that raise \<open>ValueError\<close> on further
  inputs are left out: the check that a host in brackets is an IPv6 or IPvFuture literal,
  and the NFKC check of a netloc with non-ASCII characters.
\<close>

record SplitResult =
  scheme :: string
  netloc :: string
  path :: string
  query :: string
  fragment :: string

record ParseResult = SplitResult +
  params :: string

definition uses_relative :: "string list" where
  "uses_relative = ['''', ''ftp'', ''http'', ''gopher'', ''nntp'', ''imap'', ''wais'', ''file'',
     ''https'', ''shttp'', ''mms'', ''prospero'', ''rtsp'', ''rtsps'', ''rtspu'', ''sftp'',
     ''svn'', ''svn+ssh'', ''ws'', ''wss'']"

definition uses_netloc :: "string list" where
  "uses_netloc = ['''', ''ftp'', ''http'', ''gopher'', ''nntp'', ''telnet'', ''imap'', ''wais'',
     ''file'', ''mms'', ''https'', ''shttp'', ''snews'', ''prospero'', ''rtsp'', ''rtsps'',
     ''rtspu'', ''rsync'', ''svn'', ''svn+ssh'', ''sftp'', ''nfs'', ''git'', ''git+ssh'',
     ''ws'', ''wss'']"

definition uses_params :: "string list" where
  "uses_params = ['''', ''ftp'', ''hdl'', ''prospero'', ''http'', ''imap'', ''https'', ''shttp'',
     ''rtsp'', ''rtsps'', ''rtspu'', ''sip'', ''sips'', ''mms'', ''sftp'', ''tel'']"

definition scheme_chars :: string where
  "scheme_chars =
     ''abcdefghijklmnopqrstuvwxyzABCDEFGHIJKLMNOPQRSTUVWXYZ0123456789+-.''"

definition ascii_letters :: string where
  "ascii_letters = ''abcdefghijklmnopqrstuvwxyzABCDEFGHIJKLMNOPQRSTUVWXYZ''"

text \<open>The characters 0x00 to 0x20, stripped from the left of a URL.\<close>

definition c0_control_or_space :: "char \<Rightarrow> bool" where
  "c0_control_or_space c = ((of_char c :: nat) \<le> 32)"

text \<open>Tab, carriage return and newline, removed from a URL wherever they stand.\<close>

definition unsafe_url_byte :: "char \<Rightarrow> bool" where
  "unsafe_url_byte c = (c \<in> {CHR 0x09, CHR 0x0D, CHR 0x0A})"

text \<open>\<open>s.split(c, 1)\<close> for a string that contains \<open>c\<close>: the parts before and after the first \<open>c\<close>.\<close>

definition split_first :: "char \<Rightarrow> string \<Rightarrow> string \<times> string" where
  "split_first c s = (takeWhile (\<lambda>x. x \<noteq> c) s, drop 1 (dropWhile (\<lambda>x. x \<noteq> c) s))"

definition netloc_delim :: "char \<Rightarrow> bool" where
  "netloc_delim c = (c \<in> {CHR ''/'', CHR ''?'', CHR ''#''})"

definition urlsplit :: "string \<Rightarrow> string \<Rightarrow> py_error + SplitResult" where
  "urlsplit u default_scheme =
     (let u1 = filter (\<lambda>c. \<not> unsafe_url_byte c) (dropWhile c0_control_or_space u);
          d1 = filter (\<lambda>c. \<not> unsafe_url_byte c)
                 (rev (dropWhile c0_control_or_space
                    (rev (dropWhile c0_control_or_space default_scheme))));
          pre = takeWhile (\<lambda>c. c \<noteq> CHR '':'') u1;
          found = (CHR '':'' \<in> set u1 \<and> pre \<noteq> [] \<and> hd u1 \<in> set ascii_letters
                   \<and> list_all (\<lambda>c. c \<in> set scheme_chars) pre);
          sch = (if found then py_lower pre else d1);
          u2 = (if found then drop (length pre + 1) u1 else u1);
          slashes = (take 2 u2 = ''//'');
          nl = (if slashes then takeWhile (\<lambda>c. \<not> netloc_delim c) (drop 2 u2) else []);
          u3 = (if slashes then dropWhile (\<lambda>c. \<not> netloc_delim c) (drop 2 u2) else u2)
      in if slashes \<and> ((CHR ''['' \<in> set nl \<and> CHR '']'' \<notin> set nl)
                        \<or> (CHR '']'' \<in> set nl \<and> CHR ''['' \<notin> set nl))
         then Inl ValueError
         else
           let frag = (if CHR ''#'' \<in> set u3 then snd (split_first CHR ''#'' u3) else []);
               u4 = (if CHR ''#'' \<in> set u3 then fst (split_first CHR ''#'' u3) else u3);
               q = (if CHR ''?'' \<in> set u4 then snd (split_first CHR ''?'' u4) else []);
               u5 = (if CHR ''?'' \<in> set u4 then fst (split_first CHR ''?'' u4) else u4)
           in Inr \<lparr>scheme = sch, netloc = nl, path = u5, query = q, fragment = frag\<rparr>)"

text \<open>
  \<open>_splitparams\<close>: the parameters start at the first \<open>;\<close> of the last path segment. With
  no \<open>;\<close> and no \<open>/\<close>, \<open>find\<close> gives -1 and the slices are \<open>url[:-1]\<close> and \<open>url[0:]\<close>.
\<close>

definition splitparams :: "string \<Rightarrow> string \<times> string" where
  "splitparams u =
     (if CHR ''/'' \<in> set u
      then
        let k = length u - 1 - length (takeWhile (\<lambda>c. c \<noteq> CHR ''/'') (rev u));
            seg = drop k u
        in if CHR '';'' \<in> set seg
           then (take k u @ takeWhile (\<lambda>c. c \<noteq> CHR '';'') seg,
                 drop 1 (dropWhile (\<lambda>c. c \<noteq> CHR '';'') seg))
           else (u, [])
      else if CHR '';'' \<in> set u then split_first CHR '';'' u
      else (butlast u, u))"

definition urlparse :: "string \<Rightarrow> string \<Rightarrow> py_error + ParseResult" where
  "urlparse u default_scheme =
     (case urlsplit u default_scheme of
        Inl e \<Rightarrow> Inl e
      | Inr r \<Rightarrow>
          if scheme r \<in> set uses_params \<and> CHR '';'' \<in> set (path r)
          then Inr \<lparr>scheme = scheme r, netloc = netloc r, path = fst (splitparams (path r)),
                    query = query r, fragment = fragment r, params = snd (splitparams (path r))\<rparr>
          else Inr \<lparr>scheme = scheme r, netloc = netloc r, path = path r,
                    query = query r, fragment = fragment r, params = []\<rparr>)"

definition urlunsplit :: "SplitResult \<Rightarrow> string" where
  "urlunsplit r =
     (let u1 = (if netloc r \<noteq> [] \<or> (scheme r \<noteq> [] \<and> scheme r \<in> set uses_netloc)
                   \<or> take 2 (path r) = ''//''
                then ''//'' @ netloc r
                       @ (if path r \<noteq> [] \<and> take 1 (path r) \<noteq> ''/'' then ''/'' @ path r
                          else path r)
                else path r);
          u2 = (if scheme r \<noteq> [] then scheme r @ '':'' @ u1 else u1);
          u3 = (if query r \<noteq> [] then u2 @ ''?'' @ query r else u2)
      in if fragment r \<noteq> [] then u3 @ ''#'' @ fragment r else u3)"

definition urlunparse :: "ParseResult \<Rightarrow> string" where
  "urlunparse p =
     urlunsplit \<lparr>scheme = scheme p, netloc = netloc p,
                 path = (if params p \<noteq> [] then path p @ '';'' @ params p else path p),
                 query = query p, fragment = fragment p\<rparr>"

text \<open>\<open>urldefrag(url)[0]\<close>\<close>

definition urldefrag :: "string \<Rightarrow> py_error + string" where
  "urldefrag u =
     (if CHR ''#'' \<in> set u
      then (case urlparse u [] of
              Inl e \<Rightarrow> Inl e
            | Inr p \<Rightarrow> Inr (urlunparse (p\<lparr>fragment := []\<rparr>)))
      else Inr u)"

text \<open>\<open>s.split(c)\<close> and \<open>c.join(parts)\<close>\<close>

fun split_on :: "char \<Rightarrow> string \<Rightarrow> string list" where
  "split_on c [] = [[]]"
| "split_on c (x # xs) =
     (if x = c then [] # split_on c xs
      else (case split_on c xs of [] \<Rightarrow> [[x]] | h # t \<Rightarrow> (x # h) # t))"

fun join :: "char \<Rightarrow> string list \<Rightarrow> string" where
  "join c [] = []"
| "join c [s] = s"
| "join c (s # t # ss) = s @ [c] @ join c (t # ss)"

text \<open>The loop of \<open>urljoin\<close> over the path segments; \<open>pop\<close> on an empty list is ignored.\<close>

fun resolve_segments :: "string list \<Rightarrow> string list \<Rightarrow> string list" where
  "resolve_segments resolved_path [] = resolved_path"
| "resolve_segments resolved_path (seg # segs) =
     (if seg = ''..'' then resolve_segments (butlast resolved_path) segs
      else if seg = ''.'' then resolve_segments resolved_path segs
      else resolve_segments (resolved_path @ [seg]) segs)"

text \<open>\<open>segments[1:-1] = filter(None, segments[1:-1])\<close>\<close>

definition filter_middle :: "string list \<Rightarrow> string list" where
  "filter_middle segs =
     (if length segs < 2 then segs
      else hd segs # filter (\<lambda>s. s \<noteq> []) (butlast (tl segs)) @ [last segs])"

definition urljoin :: "string \<Rightarrow> string \<Rightarrow> py_error + string" where
  "urljoin base u =
     (if base = [] then Inr u
      else if u = [] then Inr base
      else
        case urlparse base [] of
          Inl e \<Rightarrow> Inl e
        | Inr b \<Rightarrow>
            (case urlparse u (scheme b) of
               Inl e \<Rightarrow> Inl e
             | Inr p \<Rightarrow>
                 if scheme p = scheme b \<and> scheme p \<in> set uses_relative
                 then
                   if scheme p \<in> set uses_netloc \<and> netloc p \<noteq> [] then Inr (urlunparse p)
                   else
                     let nl = (if scheme p \<in> set uses_netloc then netloc b else netloc p)
                     in if path p = [] \<and> params p = []
                        then Inr (urlunparse
                               (p\<lparr>netloc := nl, path := path b, params := params b,
                                  query := (if query p = [] then query b else query p)\<rparr>))
                        else
                          let parts = split_on CHR ''/'' (path b);
                              base_parts = (if last parts \<noteq> [] then butlast parts else parts);
                              segments =
                                (if take 1 (path p) = ''/'' then split_on CHR ''/'' (path p)
                                 else filter_middle (base_parts @ split_on CHR ''/'' (path p)));
                              resolved_path =
                                resolve_segments [] segments
                                  @ (if last segments = ''.'' \<or> last segments = ''..'' then [[]]
                                     else []);
                              joined = join CHR ''/'' resolved_path
                          in Inr (urlunparse
                                (p\<lparr>netloc := nl,
                                   path := (if joined = [] then ''/'' else joined)\<rparr>))
                 else Inr u))"

section \<open>utils.py\<close>

definition normalize_url :: "string \<Rightarrow> py_error + string" where
  "normalize_url u =
     (if u = [] then Inr u
      else
        case urldefrag u of
          Inl e \<Rightarrow> Inl e
        | Inr u1 \<Rightarrow>
            (case urlparse u1 [] of
               Inl e \<Rightarrow> Inl e
             | Inr parsed \<Rightarrow> Inr (if scheme parsed = [] then ''https://'' @ u1 else u1)))"

text \<open>The bare \<open>except\<close> turns every exception of the parser into \<open>False\<close>.\<close>

definition is_same_domain :: "string \<Rightarrow> string \<Rightarrow> bool" where
  "is_same_domain url1 url2 =
     (case urlparse url1 [] of
        Inl e \<Rightarrow> False
      | Inr p1 \<Rightarrow>
          (case urlparse url2 [] of
             Inl e \<Rightarrow> False
           | Inr p2 \<Rightarrow> py_lower (netloc p1) = py_lower (netloc p2)))"

definition is_valid_url :: "string \<Rightarrow> bool" where
  "is_valid_url u =
     (case urlparse u [] of
        Inl e \<Rightarrow> False
      | Inr parsed \<Rightarrow> scheme parsed \<noteq> [] \<and> netloc parsed \<noteq> [])"

text \<open>
  The loop of \<open>deduplicate_urls\<close>, with its two variables \<open>seen\<close> and \<open>result\<close>; an exception
  of \<open>normalize_url\<close> ends it.
\<close>

fun dedup_loop :: "string list \<Rightarrow> string set \<Rightarrow> string list \<Rightarrow> py_error + string list" where
  "dedup_loop [] seen result = Inr result"
| "dedup_loop (u # urls) seen result =
     (case normalize_url u of
        Inl e \<Rightarrow> Inl e
      | Inr normalized \<Rightarrow>
          if normalized \<noteq> [] \<and> normalized \<notin> seen
          then dedup_loop urls (insert normalized seen) (result @ [normalized])
          else dedup_loop urls seen result)"

definition deduplicate_urls :: "string list \<Rightarrow> py_error + string list" where
  "deduplicate_urls urls = dedup_loop urls {} []"

definition filter_urls_by_domain :: "string list \<Rightarrow> string \<Rightarrow> string list" where
  "filter_urls_by_domain urls allowed_domain = filter (\<lambda>u. is_same_domain u allowed_domain) urls"

section \<open>Properties of deduplicate_urls\<close>

text \<open>Keeping the first occurrence of every value of a list, in the order of the list.\<close>

fun first_occurrences :: "'a list \<Rightarrow> 'a list" where
  "first_occurrences [] = []"
| "first_occurrences (x # xs) = x # first_occurrences (removeAll x xs)"

lemma dedup_loop_first_occurrences:
  "map normalize_url urls = map Inr ns \<Longrightarrow>
     dedup_loop urls seen result =
       Inr (result @ first_occurrences (filter (\<lambda>n. n \<notin> seen) (filter (\<lambda>n. n \<noteq> []) ns)))"
proof (induction urls arbitrary: ns seen result)
  case Nil
  then show ?case by simp
next
  case (Cons u urls)
  then obtain n ns' where ns: "ns = n # ns'" and n: "normalize_url u = Inr n"
    and rest: "map normalize_url urls = map Inr ns'"
    by (cases ns) auto
  show ?case
  proof (cases "n \<noteq> [] \<and> n \<notin> seen")
    case True
    have "removeAll n (filter (\<lambda>x. x \<noteq> [] \<and> x \<notin> seen) ns')
            = filter (\<lambda>x. x \<noteq> [] \<and> x \<noteq> n \<and> x \<notin> seen) ns'"
      by (induction ns') auto
    with True show ?thesis
      using Cons.IH [OF rest, of "insert n seen" "result @ [n]"] n ns
      by simp
  next
    case False
    then show ?thesis
      using Cons.IH [OF rest, of seen result] n ns by auto
  qed
qed

lemma deduplicate_urls_first_occurrences:
  "map normalize_url urls = map Inr ns \<Longrightarrow>
     deduplicate_urls urls = Inr (first_occurrences (filter (\<lambda>n. n \<noteq> []) ns))"
  unfolding deduplicate_urls_def
  using dedup_loop_first_occurrences [of urls ns "{}" "[]"] by simp

text \<open>
  Claim C6 on the code. \<open>normalize_url\<close> removes the fragment and adds a missing scheme; it
  does not touch a trailing slash. So \<open>https://x.com\<close> and \<open>https://x.com/\<close> stay different
  and the list of the claim is reduced to three entries, not two.
\<close>

theorem deduplicate_urls_example:
  "deduplicate_urls [''https://x.com'', ''https://x.com/'', ''https://x.com#f'', ''https://x.com/p'']
     = Inr [''https://x.com'', ''https://x.com/'', ''https://x.com/p'']
   \<and> map normalize_url
         [''https://x.com'', ''https://x.com/'', ''https://x.com#f'', ''https://x.com/p'']
     = [Inr ''https://x.com'', Inr ''https://x.com/'', Inr ''https://x.com'', Inr ''https://x.com/p'']"
  by code_simp

section \<open>advanced_analyzers.py: InternalLinkAnalyzer\<close>

text \<open>
  A \<open>defaultdict(set)\<close> from URLs to sets of URLs is an association list in insertion
  order; each value is a list without repetition, in insertion order, which is the order
  the model iterates a set in (Python leaves that order open).
\<close>

type_synonym graph = "(string \<times> string list) list"

text \<open>\<open>d[k]\<close>: reading a missing key inserts it with an empty set.\<close>

definition dd_get :: "graph \<Rightarrow> string \<Rightarrow> string list \<times> graph" where
  "dd_get d k = (case map_of d k of Some vs \<Rightarrow> (vs, d) | None \<Rightarrow> ([], d @ [(k, [])]))"

text \<open>\<open>d[k].add(v)\<close>\<close>

definition dd_add :: "graph \<Rightarrow> string \<Rightarrow> string \<Rightarrow> graph" where
  "dd_add d k v =
     (case map_of d k of
        Some vs \<Rightarrow> AList.update k (if v \<in> set vs then vs else vs @ [v]) d
      | None \<Rightarrow> d @ [(k, [v])])"

record InternalLinkAnalyzer =
  link_graph :: graph
  reverse_link_graph :: graph
  all_urls :: "string set"

definition new_InternalLinkAnalyzer :: InternalLinkAnalyzer where
  "new_InternalLinkAnalyzer = \<lparr>link_graph = [], reverse_link_graph = [], all_urls = {}\<rparr>"

text \<open>
  The loop of \<open>add_page_links\<close>. An exception of \<open>normalize_url\<close> leaves the analyzer as the
  links before it made it.
\<close>

fun add_links_loop ::
  "InternalLinkAnalyzer \<Rightarrow> string \<Rightarrow> string list
     \<Rightarrow> (py_error \<times> InternalLinkAnalyzer) + InternalLinkAnalyzer" where
  "add_links_loop a page_url [] = Inr a"
| "add_links_loop a page_url (link # links) =
     (case normalize_url link of
        Inl e \<Rightarrow> Inl (e, a)
      | Inr normalized_link \<Rightarrow>
          if normalized_link \<noteq> [] \<and> is_same_domain normalized_link page_url
          then add_links_loop
                 (a\<lparr>link_graph := dd_add (link_graph a) page_url normalized_link,
                    reverse_link_graph := dd_add (reverse_link_graph a) normalized_link page_url,
                    all_urls := insert normalized_link (all_urls a)\<rparr>)
                 page_url links
          else add_links_loop a page_url links)"

definition add_page_links ::
  "InternalLinkAnalyzer \<Rightarrow> string \<Rightarrow> string list
     \<Rightarrow> (py_error \<times> InternalLinkAnalyzer) + InternalLinkAnalyzer" where
  "add_page_links a page_url outbound_links =
     add_links_loop (a\<lparr>all_urls := insert page_url (all_urls a)\<rparr>) page_url outbound_links"

text \<open>Successive calls of \<open>add_page_links\<close>, one per page with its outbound links.\<close>

fun add_pages ::
  "InternalLinkAnalyzer \<Rightarrow> (string \<times> string list) list
     \<Rightarrow> (py_error \<times> InternalLinkAnalyzer) + InternalLinkAnalyzer" where
  "add_pages a [] = Inr a"
| "add_pages a ((page_url, outbound_links) # pages) =
     (case add_page_links a page_url outbound_links of
        Inl e \<Rightarrow> Inl e
      | Inr a' \<Rightarrow> add_pages a' pages)"

text \<open>
  \<open>find_orphaned_pages\<close>: the test \<open>url not in d or len(d[url]) == 0\<close> reads \<open>d[url]\<close> only
  for a key that is present, so the dictionary is not changed.
\<close>

definition find_orphaned_pages :: "InternalLinkAnalyzer \<Rightarrow> string set \<Rightarrow> string set" where
  "find_orphaned_pages a sitemap_urls =
     {u \<in> sitemap_urls.
        (case map_of (reverse_link_graph a) u of None \<Rightarrow> True | Some vs \<Rightarrow> length vs = 0)}"

text \<open>The inner loop of \<open>find_link_depth\<close> over the links of the current page.\<close>

fun visit_links ::
  "string list \<Rightarrow> int \<Rightarrow> (string \<rightharpoonup> int) \<Rightarrow> string list
     \<Rightarrow> (string \<rightharpoonup> int) \<times> string list" where
  "visit_links [] current_depth depths queue = (depths, queue)"
| "visit_links (linked_url # ls) current_depth depths queue =
     (if depths linked_url = None
      then visit_links ls current_depth (depths(linked_url \<mapsto> current_depth + 1))
             (queue @ [linked_url])
      else visit_links ls current_depth depths queue)"

text \<open>All link targets of a graph.\<close>

definition targets :: "graph \<Rightarrow> string set" where
  "targets d = (\<Union>(k, vs) \<in> set d. set vs)"

lemma finite_targets: "finite (targets d)"
  by (auto simp: targets_def)

lemma targets_dd_get: "targets (snd (dd_get d k)) = targets d"
  by (auto simp: dd_get_def targets_def split: option.splits)

lemma dd_get_targets: "set (fst (dd_get d k)) \<subseteq> targets d"
  by (auto simp: dd_get_def targets_def split: option.splits dest: map_of_SomeD)

lemma visit_links_measure:
  "set ls \<subseteq> U \<Longrightarrow> finite U \<Longrightarrow> visit_links ls d depths queue = (depths', queue') \<Longrightarrow>
     card (U - dom depths') + length queue' = card (U - dom depths) + length queue"
proof (induction ls arbitrary: depths queue)
  case Nil
  then show ?case by simp
next
  case (Cons l ls)
  show ?case
  proof (cases "depths l = None")
    case True
    with Cons.prems have v: "visit_links ls d (depths(l \<mapsto> d + 1)) (queue @ [l]) = (depths', queue')"
      by simp
    from Cons.prems have "set ls \<subseteq> U" by simp
    from Cons.IH [OF this Cons.prems(2) v]
    have "card (U - dom depths') + length queue'
            = card (U - dom (depths(l \<mapsto> d + 1))) + length (queue @ [l])" .
    moreover have "l \<in> U - dom depths" using True Cons.prems(1) by (auto simp: domIff)
    then have "card (U - dom depths) = Suc (card (U - dom (depths(l \<mapsto> d + 1))))"
      using Cons.prems(2)
      by (metis Diff_insert card_Suc_Diff1 dom_fun_upd finite_Diff option.distinct(1))
    ultimately show ?thesis by simp
  next
    case False
    with Cons.prems have v: "visit_links ls d depths queue = (depths', queue')" by simp
    from Cons.prems have "set ls \<subseteq> U" by simp
    from Cons.IH [OF this Cons.prems(2) v] show ?thesis .
  qed
qed

text \<open>
  The loop of \<open>find_link_depth\<close>. \<open>depths[current_url]\<close> raises \<open>KeyError\<close> for a URL without
  a depth; \<open>self.link_graph[current_url]\<close> may insert the URL into the graph.
\<close>

function bfs_loop ::
  "graph \<Rightarrow> (string \<rightharpoonup> int) \<Rightarrow> string list \<Rightarrow> py_error + ((string \<rightharpoonup> int) \<times> graph)" where
  "bfs_loop g depths [] = Inr (depths, g)"
| "bfs_loop g depths (current_url # queue) =
     (case depths current_url of
        None \<Rightarrow> Inl KeyError
      | Some current_depth \<Rightarrow>
          bfs_loop (snd (dd_get g current_url))
            (fst (visit_links (fst (dd_get g current_url)) current_depth depths queue))
            (snd (visit_links (fst (dd_get g current_url)) current_depth depths queue)))"
  by pat_completeness auto
termination
proof (relation "measure (\<lambda>(g, depths, queue). card (targets g - dom depths) + length queue)")
  show "wf (measure (\<lambda>(g, depths, queue). card (targets g - dom depths) + length queue))"
    by simp
next
  fix g :: graph and depths :: "string \<rightharpoonup> int" and current_url queue current_depth
  obtain depths' queue' where
    v: "visit_links (fst (dd_get g current_url)) current_depth depths queue = (depths', queue')"
    by (cases "visit_links (fst (dd_get g current_url)) current_depth depths queue")
  have "card (targets g - dom depths') + length queue'
          = card (targets g - dom depths) + length queue"
    using visit_links_measure [OF dd_get_targets finite_targets v] .
  then show "((snd (dd_get g current_url),
          fst (visit_links (fst (dd_get g current_url)) current_depth depths queue),
          snd (visit_links (fst (dd_get g current_url)) current_depth depths queue)),
         g, depths, current_url # queue)
        \<in> measure (\<lambda>(g, depths, queue). card (targets g - dom depths) + length queue)"
    by (simp add: v targets_dd_get)
qed

definition find_link_depth ::
  "InternalLinkAnalyzer \<Rightarrow> string \<Rightarrow> py_error + ((string \<rightharpoonup> int) \<times> InternalLinkAnalyzer)" where
  "find_link_depth a start_url =
     (case bfs_loop (link_graph a) [start_url \<mapsto> 0] [start_url] of
        Inl e \<Rightarrow> Inl e
      | Inr (depths, g) \<Rightarrow> Inr (depths, a\<lparr>link_graph := g\<rparr>))"

section \<open>Properties of link analysis\<close>

lemma two_edges_graph:
  assumes d: "distinct [home, p1, p2, p3]"
    and n1: "normalize_url p1 = Inr p1" and n2: "normalize_url p2 = Inr p2"
    and e1: "p1 \<noteq> []" and e2: "p2 \<noteq> []"
    and s1: "is_same_domain p1 home" and s2: "is_same_domain p2 p1"
  shows "\<exists>a. add_pages new_InternalLinkAnalyzer [(home, [p1]), (p1, [p2])] = Inr a
           \<and> link_graph a = [(home, [p1]), (p1, [p2])]
           \<and> reverse_link_graph a = [(p1, [home]), (p2, [p1])]"
  using assms
  by (auto simp: add_page_links_def new_InternalLinkAnalyzer_def dd_add_def)

lemma two_edges_orphans:
  assumes "distinct [home, p1, p2, p3]"
    and "reverse_link_graph a = [(p1, [home]), (p2, [p1])]"
  shows "find_orphaned_pages a {home, p1, p2, p3} = {home, p3}"
  using assms by (auto simp: find_orphaned_pages_def)

lemma two_edges_depths:
  assumes "distinct [home, p1, p2, p3]"
    and "link_graph a = [(home, [p1]), (p1, [p2])]"
  shows "find_link_depth a home =
           Inr ([home \<mapsto> 0, p1 \<mapsto> 1, p2 \<mapsto> 2],
                a\<lparr>link_graph := [(home, [p1]), (p1, [p2]), (p2, [])]\<rparr>)"
  using assms by (auto simp: find_link_depth_def dd_get_def)

text \<open>
  Claim C2 as the code has it. For the graph built from the forward edges
  \<open>home \<rightarrow> p1\<close> and \<open>p1 \<rightarrow> p2\<close> (four different URLs, the link targets normalized and on the
  domain of their page) and the sitemap \<open>{home, p1, p2, p3}\<close>, \<open>find_orphaned_pages\<close>
  returns \<open>{home, p3}\<close>: \<open>home\<close> has no inbound link either. \<open>find_link_depth\<close> from \<open>home\<close>
  returns exactly the map \<open>{home: 0, p1: 1, p2: 2}\<close>, in which \<open>p3\<close> has no entry.
\<close>

theorem link_graph_example:
  assumes "distinct [home, p1, p2, p3]"
    and "normalize_url p1 = Inr p1" and "normalize_url p2 = Inr p2"
    and "p1 \<noteq> []" and "p2 \<noteq> []"
    and "is_same_domain p1 home" and "is_same_domain p2 p1"
  shows "\<exists>a. add_pages new_InternalLinkAnalyzer [(home, [p1]), (p1, [p2])] = Inr a
           \<and> link_graph a = [(home, [p1]), (p1, [p2])]
           \<and> find_orphaned_pages a {home, p1, p2, p3} = {home, p3}
           \<and> (\<exists>a'. find_link_depth a home = Inr ([home \<mapsto> 0, p1 \<mapsto> 1, p2 \<mapsto> 2], a'))
           \<and> [home \<mapsto> 0, p1 \<mapsto> 1, p2 \<mapsto> (2::int)] p3 = None"
proof -
  from two_edges_graph [OF assms] obtain a where
    a: "add_pages new_InternalLinkAnalyzer [(home, [p1]), (p1, [p2])] = Inr a"
    and g: "link_graph a = [(home, [p1]), (p1, [p2])]"
    and r: "reverse_link_graph a = [(p1, [home]), (p2, [p1])]" by blast
  have o: "find_orphaned_pages a {home, p1, p2, p3} = {home, p3}"
    using assms(1) r by (rule two_edges_orphans)
  have b: "\<exists>a'. find_link_depth a home = Inr ([home \<mapsto> 0, p1 \<mapsto> 1, p2 \<mapsto> 2], a')"
    using two_edges_depths [OF assms(1) g] by blast
  have n: "[home \<mapsto> 0, p1 \<mapsto> 1, p2 \<mapsto> (2::int)] p3 = None"
    using assms(1) by auto
  from a g o b n show ?thesis by blast
qed

definition x_home :: string where "x_home = ''https://x.com/''"
definition x_p1 :: string where "x_p1 = ''https://x.com/p1''"
definition x_p2 :: string where "x_p2 = ''https://x.com/p2''"
definition x_p3 :: string where "x_p3 = ''https://x.com/p3''"

theorem link_graph_example_witness:
  "\<exists>a. add_pages new_InternalLinkAnalyzer [(x_home, [x_p1]), (x_p1, [x_p2])] = Inr a
     \<and> link_graph a = [(x_home, [x_p1]), (x_p1, [x_p2])]
     \<and> find_orphaned_pages a {x_home, x_p1, x_p2, x_p3} = {x_home, x_p3}
     \<and> (\<exists>a'. find_link_depth a x_home = Inr ([x_home \<mapsto> 0, x_p1 \<mapsto> 1, x_p2 \<mapsto> 2], a'))
     \<and> [x_home \<mapsto> 0, x_p1 \<mapsto> 1, x_p2 \<mapsto> (2::int)] x_p3 = None"
proof -
  have d: "distinct [x_home, x_p1, x_p2, x_p3]"
    by (simp add: x_home_def x_p1_def x_p2_def x_p3_def)
  have n1: "normalize_url x_p1 = Inr x_p1" and n2: "normalize_url x_p2 = Inr x_p2"
    unfolding x_p1_def x_p2_def by code_simp+
  have e: "x_p1 \<noteq> []" "x_p2 \<noteq> []" by (simp_all add: x_p1_def x_p2_def)
  have s1: "is_same_domain x_p1 x_home" and s2: "is_same_domain x_p2 x_p1"
    unfolding x_home_def x_p1_def x_p2_def by code_simp+
  from link_graph_example [OF d n1 n2 e s1 s2] show ?thesis .
qed

text \<open>
  The claim as stated fails: with these four URLs the orphaned pages are not \<open>{p3}\<close>.
\<close>

theorem orphaned_pages_counterexample:
  "find_orphaned_pages
     (projr (add_pages new_InternalLinkAnalyzer
        [(''https://x.com/'', [''https://x.com/p1'']), (''https://x.com/p1'', [''https://x.com/p2''])]))
     {''https://x.com/'', ''https://x.com/p1'', ''https://x.com/p2'', ''https://x.com/p3''}
   \<noteq> {''https://x.com/p3''}"
  by code_simp

section \<open>analyzers.py: RedirectAnalyzer\<close>

















section \<open>Properties of redirect analysis\<close>










section \<open>crawler.py: SEOCrawler\<close>

text \<open>
  What the crawler takes from the network is a parameter of the model:
  \<open>sitemap_urls_found\<close> is \<open>list(urls)\<close> at the end of \<open>discover_from_sitemap\<close>, after the
  requests for the three sitemap locations it is given; \<open>discover_from_page\<close> is the list of
  links that \<open>URLDiscovery.discover_from_page\<close> returns for a page (it catches every
  exception of the request and of the link extraction, and then returns the empty list);
  \<open>is_allowed_by_robots\<close> is the answer of the function of that name in \<open>utils.py\<close> for the
  configured user agent and the parser read in \<open>__init__\<close> (its bare \<open>except\<close> makes it total).
\<close>

record crawl_env =
  sitemap_urls_found :: "string list \<Rightarrow> string list"
  discover_from_page :: "string \<Rightarrow> string list"
  is_allowed_by_robots :: "string \<Rightarrow> bool"

text \<open>
  The fields of \<open>SEOCrawler\<close> that the crawl reads and writes. The crawl delay and the time
  of the last request only decide how long \<open>_respect_rate_limit\<close> sleeps; they are left out.
\<close>

record SEOCrawler =
  config :: AuditConfig
  discovered_urls :: "string fset"
  crawled_urls :: "string fset"
  url_queue :: "string list"

definition new_SEOCrawler :: "AuditConfig \<Rightarrow> SEOCrawler" where
  "new_SEOCrawler cfg =
     \<lparr>config = cfg, discovered_urls = {||}, crawled_urls = {||}, url_queue = []\<rparr>"

definition discover_from_sitemap :: "crawl_env \<Rightarrow> string \<Rightarrow> py_error + string list" where
  "discover_from_sitemap env d =
     (case urljoin d ''/sitemap.xml'' of
        Inl e \<Rightarrow> Inl e
      | Inr s1 \<Rightarrow>
          (case urljoin d ''/sitemap_index.xml'' of
             Inl e \<Rightarrow> Inl e
           | Inr s2 \<Rightarrow>
               (case urljoin d ''/sitemaps.xml'' of
                  Inl e \<Rightarrow> Inl e
                | Inr s3 \<Rightarrow> Inr (sitemap_urls_found env [s1, s2, s3]))))"

definition add_url_to_queue :: "crawl_env \<Rightarrow> SEOCrawler \<Rightarrow> string \<Rightarrow> SEOCrawler" where
  "add_url_to_queue env s u =
     (if u |\<notin>| discovered_urls s \<and> is_valid_url u
      then
        if is_allowed_by_robots env u
        then s\<lparr>discovered_urls := finsert u (discovered_urls s), url_queue := url_queue s @ [u]\<rparr>
        else s
      else s)"

text \<open>The slice \<open>xs[:n]\<close>: a negative \<open>n\<close> counts from the end.\<close>

definition slice_to :: "'a list \<Rightarrow> int \<Rightarrow> 'a list" where
  "slice_to xs n = (if 0 \<le> n then take (nat n) xs else take (nat (int (length xs) + n)) xs)"

definition initialize_urls :: "crawl_env \<Rightarrow> SEOCrawler \<Rightarrow> py_error + SEOCrawler" where
  "initialize_urls env s =
     (case discover_from_sitemap env (domain (config s)) of
        Inl e \<Rightarrow> Inl e
      | Inr sitemap_urls \<Rightarrow>
          if sitemap_urls \<noteq> []
          then
            let filtered_urls = filter_urls_by_domain sitemap_urls (domain (config s))
            in Inr (fold (\<lambda>u s'. add_url_to_queue env s' u)
                      (slice_to filtered_urls (max_pages (config s))) s)
          else
            (case normalize_url (domain (config s)) of
               Inl e \<Rightarrow> Inl e
             | Inr homepage \<Rightarrow> Inr (add_url_to_queue env s homepage)))"

definition get_next_url :: "SEOCrawler \<Rightarrow> string option \<times> SEOCrawler" where
  "get_next_url s =
     (if url_queue s = [] \<or> max_pages (config s) \<le> int (fcard (crawled_urls s))
      then (None, s)
      else (Some (hd (url_queue s)), s\<lparr>url_queue := tl (url_queue s)\<rparr>))"

definition mark_url_crawled :: "SEOCrawler \<Rightarrow> string \<Rightarrow> SEOCrawler" where
  "mark_url_crawled s u = s\<lparr>crawled_urls := finsert u (crawled_urls s)\<rparr>"

text \<open>The \<open>for\<close> loop of \<open>discover_more_urls\<close>, with its \<open>break\<close>.\<close>

fun add_page_urls :: "crawl_env \<Rightarrow> SEOCrawler \<Rightarrow> string list \<Rightarrow> SEOCrawler" where
  "add_page_urls env s [] = s"
| "add_page_urls env s (page_url # page_urls) =
     (if int (fcard (discovered_urls s)) < max_pages (config s)
      then add_page_urls env (add_url_to_queue env s page_url) page_urls
      else s)"

definition discover_more_urls :: "crawl_env \<Rightarrow> SEOCrawler \<Rightarrow> string \<Rightarrow> SEOCrawler" where
  "discover_more_urls env s u =
     (if max_pages (config s) \<le> int (fcard (discovered_urls s)) then s
      else add_page_urls env s (discover_from_page env u))"

text \<open>
  \<open>crawl_urls\<close> is a generator. What it runs between a \<open>yield url\<close> and the next test of its
  loop, when the consumer asks for the next URL:
\<close>

definition after_yield :: "crawl_env \<Rightarrow> SEOCrawler \<Rightarrow> string \<Rightarrow> SEOCrawler" where
  "after_yield env s u =
     (let s1 = mark_url_crawled s u
      in if int (fcard (crawled_urls s1)) < max_pages (config s1)
         then discover_more_urls env s1 u else s1)"

definition budget_left :: "SEOCrawler \<Rightarrow> nat" where
  "budget_left s =
     length (url_queue s) + nat (max_pages (config s) - int (fcard (discovered_urls s)))"

lemma add_url_to_queue_budget:
  "int (fcard (discovered_urls s)) < max_pages (config s) \<Longrightarrow>
     budget_left (add_url_to_queue env s u) = budget_left s"
  by (auto simp: add_url_to_queue_def budget_left_def fcard_finsert_disjoint)

lemma add_url_to_queue_config [simp]: "config (add_url_to_queue env s u) = config s"
  by (simp add: add_url_to_queue_def)

lemma add_page_urls_budget: "budget_left (add_page_urls env s us) = budget_left s"
  by (induction us arbitrary: s) (simp_all add: add_url_to_queue_budget)

lemma after_yield_budget: "budget_left (after_yield env s u) = budget_left s"
  by (simp add: after_yield_def Let_def discover_more_urls_def add_page_urls_budget)
     (simp add: mark_url_crawled_def budget_left_def)

lemma get_next_url_budget:
  "get_next_url s = (Some u, s1) \<Longrightarrow> budget_left s1 < budget_left s"
  by (auto simp: get_next_url_def budget_left_def split: if_splits)

text \<open>
  The \<open>while True\<close> loop of \<open>crawl_urls\<close>, run by a consumer that asks for every URL: the
  URLs it yields, in order, and the crawler at the end. A consumer that stops early
  gets a prefix of them.
\<close>

function crawl_loop :: "crawl_env \<Rightarrow> SEOCrawler \<Rightarrow> string list \<times> SEOCrawler" where
  "crawl_loop env s =
     (case get_next_url s of
        (None, s1) \<Rightarrow> ([], s1)
      | (Some u, s1) \<Rightarrow>
          if u = [] then ([], s1)
          else
            let rest = crawl_loop env (after_yield env s1 u)
            in (u # fst rest, snd rest))"
  by pat_completeness auto
termination
proof (relation "measure (\<lambda>(env, s). budget_left s)")
  show "wf (measure (\<lambda>(env, s). budget_left s))" by simp
next
  fix env s x1 x2 u
  assume "(x1, x2) = get_next_url s" and "x1 = Some u"
  then have "budget_left x2 < budget_left s"
    using get_next_url_budget [of s u x2] by simp
  then show "((env, after_yield env x2 u), (env, s)) \<in> measure (\<lambda>(env, s). budget_left s)"
    by (simp add: after_yield_budget)
qed

declare crawl_loop.simps [simp del]

definition crawl_urls ::
  "crawl_env \<Rightarrow> AuditConfig \<Rightarrow> py_error + string list \<times> SEOCrawler" where
  "crawl_urls env cfg =
     (case initialize_urls env (new_SEOCrawler cfg) of
        Inl e \<Rightarrow> Inl e
      | Inr s \<Rightarrow> Inr (crawl_loop env s))"

section \<open>audit_engine.py: run_audit\<close>

text \<open>
  The loop of \<open>run_audit\<close> over the URLs that the crawl yields. \<open>analyze\<close> stands for the body
  of the loop up to \<open>self.results.append(result)\<close> (the progress report, \<open>analyze_page\<close> and
  the redirect analysis), \<open>Inl\<close> when it raises: the \<open>except\<close> clauses around the loop then end
  it, as they do when \<open>add_result\<close> raises.
\<close>

fun audit_loop ::
  "(string \<Rightarrow> py_error + PageResult) \<Rightarrow> int \<Rightarrow> string list \<Rightarrow> PageResult list \<Rightarrow> AuditSummary
     \<Rightarrow> PageResult list \<times> AuditSummary" where
  "audit_loop analyze limit [] results summary = (results, summary)"
| "audit_loop analyze limit (u # us) results summary =
     (case analyze u of
        Inl e \<Rightarrow> (results, summary)
      | Inr result \<Rightarrow>
          (case add_result summary result of
             Inl (e, summary') \<Rightarrow> (results @ [result], summary')
           | Inr summary' \<Rightarrow>
               if limit \<le> int (length (results @ [result])) then (results @ [result], summary')
               else audit_loop analyze limit us (results @ [result]) summary'))"

text \<open>
  The fields \<open>results\<close> and \<open>summary\<close> of the engine when the loop of \<open>run_audit\<close> has ended;
  an exception of \<open>crawl_urls\<close> before its first URL ends it with both as they were. The
  analyses that \<open>run_audit\<close> runs after the loop read \<open>results\<close> and add no page result.
\<close>

definition run_audit ::
  "crawl_env \<Rightarrow> (string \<Rightarrow> py_error + PageResult) \<Rightarrow> AuditConfig
     \<Rightarrow> PageResult list \<times> AuditSummary" where
  "run_audit env analyze cfg =
     (case crawl_urls env cfg of
        Inl e \<Rightarrow> ([], new_AuditSummary)
      | Inr (yielded, s) \<Rightarrow> audit_loop analyze (max_pages cfg) yielded [] new_AuditSummary)"

section \<open>Properties of the crawl\<close>

text \<open>
  The queue holds no URL twice and none that was crawled, and every URL of the queue and
  every crawled URL was discovered.
\<close>

definition queue_inv :: "SEOCrawler \<Rightarrow> bool" where
  "queue_inv s =
     (distinct (url_queue s)
      \<and> fset_of_list (url_queue s) |\<inter>| crawled_urls s = {||}
      \<and> fset_of_list (url_queue s) |\<subseteq>| discovered_urls s
      \<and> crawled_urls s |\<subseteq>| discovered_urls s)"

lemma queue_inv_new: "queue_inv (new_SEOCrawler cfg)"
  by (simp add: queue_inv_def new_SEOCrawler_def)

lemma add_url_to_queue_crawled [simp]:
  "crawled_urls (add_url_to_queue env s u) = crawled_urls s"
  by (simp add: add_url_to_queue_def)

lemma add_url_to_queue_inv: "queue_inv s \<Longrightarrow> queue_inv (add_url_to_queue env s u)"
  unfolding queue_inv_def add_url_to_queue_def
  by (auto simp: fset_of_list_elem)

lemma fold_add_url_to_queue:
  "queue_inv s \<Longrightarrow>
     queue_inv (fold (\<lambda>u s'. add_url_to_queue env s' u) us s)
     \<and> config (fold (\<lambda>u s'. add_url_to_queue env s' u) us s) = config s
     \<and> crawled_urls (fold (\<lambda>u s'. add_url_to_queue env s' u) us s) = crawled_urls s"
  by (induction us arbitrary: s) (simp_all add: add_url_to_queue_inv)

lemma initialize_urls_inv:
  assumes "initialize_urls env (new_SEOCrawler cfg) = Inr s"
  shows "queue_inv s \<and> config s = cfg \<and> crawled_urls s = {||}"
proof -
  have n: "config (new_SEOCrawler cfg) = cfg" "crawled_urls (new_SEOCrawler cfg) = {||}"
    by (simp_all add: new_SEOCrawler_def)
  from assms show ?thesis
    using fold_add_url_to_queue [OF queue_inv_new, of env _ cfg]
      add_url_to_queue_inv [OF queue_inv_new, of env cfg] n
    by (auto simp: initialize_urls_def Let_def split: sum.splits if_splits)
qed

lemma add_page_urls_inv:
  "queue_inv s \<Longrightarrow>
     queue_inv (add_page_urls env s us)
     \<and> config (add_page_urls env s us) = config s
     \<and> crawled_urls (add_page_urls env s us) = crawled_urls s"
  by (induction us arbitrary: s) (simp_all add: add_url_to_queue_inv)

lemma get_next_url_Some:
  assumes "get_next_url s = (Some u, s1)" and "queue_inv s"
  shows "u |\<notin>| crawled_urls s" and "int (fcard (crawled_urls s)) < max_pages (config s)"
    and "queue_inv (mark_url_crawled s1 u)" and "config s1 = config s"
    and "crawled_urls s1 = crawled_urls s"
proof -
  from assms(1) have q: "url_queue s \<noteq> []"
    and b: "int (fcard (crawled_urls s)) < max_pages (config s)"
    and u: "u = hd (url_queue s)" and s1: "s1 = s\<lparr>url_queue := tl (url_queue s)\<rparr>"
    by (auto simp: get_next_url_def split: if_splits)
  from q u have c: "url_queue s = u # tl (url_queue s)" by simp
  from assms(2) have i: "distinct (u # tl (url_queue s))"
    "fset_of_list (u # tl (url_queue s)) |\<inter>| crawled_urls s = {||}"
    "fset_of_list (u # tl (url_queue s)) |\<subseteq>| discovered_urls s"
    "crawled_urls s |\<subseteq>| discovered_urls s"
    unfolding queue_inv_def using c by simp_all
  from i(2) show "u |\<notin>| crawled_urls s" by auto
  from b show "int (fcard (crawled_urls s)) < max_pages (config s)" .
  from i show "queue_inv (mark_url_crawled s1 u)"
    unfolding queue_inv_def mark_url_crawled_def s1
    by (auto simp: fset_of_list_elem)
  from s1 show "config s1 = config s" and "crawled_urls s1 = crawled_urls s" by simp_all
qed

lemma after_yield_inv:
  assumes "get_next_url s = (Some u, s1)" and "queue_inv s"
  shows "queue_inv (after_yield env s1 u)"
    and "config (after_yield env s1 u) = config s"
    and "crawled_urls (after_yield env s1 u) = finsert u (crawled_urls s)"
proof -
  note g = get_next_url_Some [OF assms]
  let ?m = "mark_url_crawled s1 u"
  have m: "config ?m = config s" "crawled_urls ?m = finsert u (crawled_urls s)"
    using g(4,5) by (simp_all add: mark_url_crawled_def)
  have d: "queue_inv (discover_more_urls env ?m u)
           \<and> config (discover_more_urls env ?m u) = config ?m
           \<and> crawled_urls (discover_more_urls env ?m u) = crawled_urls ?m"
    using add_page_urls_inv [OF g(3), of env] g(3) by (simp add: discover_more_urls_def)
  show "queue_inv (after_yield env s1 u)"
    using g(3) d by (simp add: after_yield_def Let_def)
  show "config (after_yield env s1 u) = config s"
    using d m by (simp add: after_yield_def Let_def)
  show "crawled_urls (after_yield env s1 u) = finsert u (crawled_urls s)"
    using d m by (simp add: after_yield_def Let_def)
qed

lemma crawl_loop_budget:
  "queue_inv s \<Longrightarrow>
     int (length (fst (crawl_loop env s))) + int (fcard (crawled_urls s))
       \<le> max (max_pages (config s)) (int (fcard (crawled_urls s)))
     \<and> distinct (fst (crawl_loop env s))
     \<and> fset_of_list (fst (crawl_loop env s)) |\<inter>| crawled_urls s = {||}
     \<and> crawled_urls (snd (crawl_loop env s))
         = crawled_urls s |\<union>| fset_of_list (fst (crawl_loop env s))"
proof (induction env s rule: crawl_loop.induct)
  case (1 env s)
  obtain r s1 where g: "get_next_url s = (r, s1)" by (cases "get_next_url s") auto
  show ?case
  proof (cases r)
    case None
    with g have "crawl_loop env s = ([], s1)" and "s1 = s"
      by (auto simp: crawl_loop.simps get_next_url_def split: if_splits)
    then show ?thesis by simp
  next
    case (Some u)
    note gs = g [unfolded Some]
    show ?thesis
    proof (cases "u = []")
      case True
      with gs have "crawl_loop env s = ([], s1)" by (simp add: crawl_loop.simps)
      moreover have "crawled_urls s1 = crawled_urls s"
        using get_next_url_Some(5) [OF gs "1.prems"] .
      ultimately show ?thesis by simp
    next
      case False
      let ?s2 = "after_yield env s1 u"
      let ?ys = "fst (crawl_loop env ?s2)"
      note a = after_yield_inv [OF gs "1.prems", of env]
      note n = get_next_url_Some(1,2) [OF gs "1.prems"]
      have c: "crawl_loop env s = (u # ?ys, snd (crawl_loop env ?s2))"
        using gs False by (subst crawl_loop.simps) (simp add: Let_def)
      have ih: "int (length ?ys) + int (fcard (crawled_urls ?s2))
                  \<le> max (max_pages (config ?s2)) (int (fcard (crawled_urls ?s2)))"
        "distinct ?ys" "fset_of_list ?ys |\<inter>| crawled_urls ?s2 = {||}"
        "crawled_urls (snd (crawl_loop env ?s2)) = crawled_urls ?s2 |\<union>| fset_of_list ?ys"
        using "1.IH" [OF gs [symmetric] refl False a(1)] by simp_all
      have f: "fcard (crawled_urls ?s2) = Suc (fcard (crawled_urls s))"
        using a(3) n(1) by (simp add: fcard_finsert_disjoint)
      have u: "u \<notin> set ?ys"
        using ih(3) a(3) by (auto simp: fset_of_list_elem)
      have "int (length (u # ?ys)) + int (fcard (crawled_urls s))
              \<le> max (max_pages (config s)) (int (fcard (crawled_urls s)))"
        using ih(1) f a(2) n(2) by simp
      moreover have "distinct (u # ?ys)" using ih(2) u by simp
      moreover have "fset_of_list (u # ?ys) |\<inter>| crawled_urls s = {||}"
        using ih(3) a(3) n(1) by auto
      moreover have "crawled_urls (snd (crawl_loop env ?s2))
                       = crawled_urls s |\<union>| fset_of_list (u # ?ys)"
        using ih(4) a(3) by auto
      ultimately show ?thesis unfolding c by simp
    qed
  qed
qed

lemma audit_loop_length:
  "length (fst (audit_loop analyze limit us results summary)) \<le> length results + length us"
proof (induction us arbitrary: results summary)
  case Nil
  show ?case by simp
next
  case (Cons u us)
  show ?case
  proof (cases "analyze u")
    case (Inl e)
    then show ?thesis by simp
  next
    case (Inr result)
    show ?thesis
    proof (cases "add_result summary result")
      case (Inl p)
      with Inr show ?thesis by (cases p) simp
    next
      case inr: (Inr summary')
      with Inr Cons.IH [of "results @ [result]" summary'] show ?thesis by simp
    qed
  qed
qed

lemma add_page_urls_crawled [simp]:
  "crawled_urls (add_page_urls env s us) = crawled_urls s"
  by (induction us arbitrary: s) simp_all

lemma after_yield_crawled:
  "crawled_urls (after_yield env s u) = finsert u (crawled_urls s)"
  by (simp add: after_yield_def Let_def discover_more_urls_def mark_url_crawled_def)

lemma crawl_urls_budget:
  assumes "crawl_urls env cfg = Inr (yielded, s')"
  shows "int (length yielded) \<le> max (max_pages cfg) 0"
    and "distinct yielded" and "crawled_urls s' = fset_of_list yielded"
proof -
  from assms obtain s where i: "initialize_urls env (new_SEOCrawler cfg) = Inr s"
    and c: "crawl_loop env s = (yielded, s')"
    by (auto simp: crawl_urls_def split: sum.splits)
  note v = initialize_urls_inv [OF i]
  from v have q: "queue_inv s" by simp
  from crawl_loop_budget [OF q, of env] c v
  show "int (length yielded) \<le> max (max_pages cfg) 0"
    and "distinct yielded" and "crawled_urls s' = fset_of_list yielded"
    by (simp_all add: fcard_fempty)
qed

lemma run_audit_length:
  "int (length (fst (run_audit env analyze cfg))) \<le> max (max_pages cfg) 0"
proof (cases "crawl_urls env cfg")
  case (Inl e)
  then show ?thesis by (simp add: run_audit_def)
next
  case (Inr p)
  obtain yielded s' where p: "p = (yielded, s')" by (cases p) auto
  from Inr p have "fst (run_audit env analyze cfg)
                     = fst (audit_loop analyze (max_pages cfg) yielded [] new_AuditSummary)"
    by (simp add: run_audit_def)
  moreover have "length (fst (audit_loop analyze (max_pages cfg) yielded [] new_AuditSummary))
                   \<le> length yielded"
    using audit_loop_length [of analyze "max_pages cfg" yielded "[]" new_AuditSummary] by simp
  moreover have "int (length yielded) \<le> max (max_pages cfg) 0"
    using crawl_urls_budget(1) [OF Inr [unfolded p]] .
  ultimately show ?thesis by simp
qed

text \<open>
  Claim C5. With a page budget \<open>max_pages > 0\<close>, a crawl that starts yields at most \<open>max_pages\<close>
  URLs, no URL twice, and the crawled set at the end is the set of the yielded URLs; the
  audit has at most one page result for each of them, so at most \<open>max_pages\<close> page results.
  \<open>get_next_url\<close> returns \<open>None\<close>, and leaves the crawler as it is, whenever the queue is empty
  or the crawled set has \<open>max_pages\<close> or more URLs. After a URL is dequeued and yielded, the
  loop goes on from the crawler that \<open>after_yield\<close> leaves, and the URL is in its crawled
  set: that is the crawler of the next \<open>get_next_url\<close>.
\<close>

theorem crawl_page_budget:
  "(0 < max_pages cfg \<and> crawl_urls env cfg = Inr (yielded, s') \<longrightarrow>
      int (length yielded) \<le> max_pages cfg \<and> distinct yielded
      \<and> crawled_urls s' = fset_of_list yielded)
   \<and> (0 < max_pages cfg \<longrightarrow> int (length (fst (run_audit env analyze cfg))) \<le> max_pages cfg)
   \<and> (url_queue s = [] \<or> max_pages (config s) \<le> int (fcard (crawled_urls s)) \<longrightarrow>
        get_next_url s = (None, s))
   \<and> (get_next_url s = (Some u, s1) \<and> u \<noteq> [] \<longrightarrow>
        crawl_loop env s
          = (u # fst (crawl_loop env (after_yield env s1 u)),
             snd (crawl_loop env (after_yield env s1 u)))
        \<and> u |\<in>| crawled_urls (after_yield env s1 u))"
proof (intro conjI impI)
  assume a: "0 < max_pages cfg \<and> crawl_urls env cfg = Inr (yielded, s')"
  then have c: "crawl_urls env cfg = Inr (yielded, s')" by simp
  from crawl_urls_budget(1) [OF c] a show "int (length yielded) \<le> max_pages cfg" by simp
  from crawl_urls_budget(2) [OF c] show "distinct yielded" .
  from crawl_urls_budget(3) [OF c] show "crawled_urls s' = fset_of_list yielded" .
next
  assume "0 < max_pages cfg"
  with run_audit_length [of env analyze cfg]
  show "int (length (fst (run_audit env analyze cfg))) \<le> max_pages cfg" by simp
next
  assume "url_queue s = [] \<or> max_pages (config s) \<le> int (fcard (crawled_urls s))"
  then show "get_next_url s = (None, s)" by (auto simp: get_next_url_def)
next
  assume a: "get_next_url s = (Some u, s1) \<and> u \<noteq> []"
  then show "crawl_loop env s
          = (u # fst (crawl_loop env (after_yield env s1 u)),
             snd (crawl_loop env (after_yield env s1 u)))"
    by (subst crawl_loop.simps) (simp add: Let_def)
  show "u |\<in>| crawled_urls (after_yield env s1 u)" by (simp add: after_yield_crawled)
qed

text \<open>A site whose home page links to four pages, crawled with a budget of two pages.\<close>

definition site_env :: crawl_env where
  "site_env =
     \<lparr>sitemap_urls_found = (\<lambda>locations. []),
      discover_from_page =
        (\<lambda>u. if u = ''https://x.com''
              then [''https://x.com/a'', ''https://x.com/b'', ''https://x.com/c'',
                    ''https://x.com/d'']
              else []),
      is_allowed_by_robots = (\<lambda>u. True)\<rparr>"

definition site_config :: AuditConfig where
  "site_config = (new_AuditConfig ''https://x.com'')\<lparr>max_pages := 2\<rparr>"

theorem crawl_page_budget_witness:
  "(\<exists>s'. crawl_urls site_env site_config = Inr ([''https://x.com'', ''https://x.com/a''], s')
         \<and> crawled_urls s' = {|''https://x.com'', ''https://x.com/a''|})
   \<and> int (length (fst (run_audit site_env (\<lambda>u. Inr (new_PageResult u)) site_config))) \<le> 2
   \<and> get_next_url (new_SEOCrawler site_config) = (None, new_SEOCrawler site_config)
   \<and> ''https://x.com'' |\<in>| crawled_urls
         (after_yield site_env
            ((new_SEOCrawler site_config)\<lparr>discovered_urls := {|''https://x.com''|}\<rparr>)
            ''https://x.com'')"
proof -
  let ?h = "''https://x.com''" and ?a = "''https://x.com/a''"
  let ?n = "new_SEOCrawler site_config"
  let ?q = "?n\<lparr>discovered_urls := {|?h|}, url_queue := [?h]\<rparr>"
  let ?d = "?n\<lparr>discovered_urls := {|?h|}\<rparr>"
  have m: "max_pages site_config = 2"
    by (simp add: site_config_def new_AuditConfig_def)
  have "map_sum id fst (crawl_urls site_env site_config) = Inr [?h, ?a]" by code_simp
  then obtain s' where r: "crawl_urls site_env site_config = Inr ([?h, ?a], s')"
    by (cases "crawl_urls site_env site_config") auto
  have e: "url_queue ?n = []" by (simp add: new_SEOCrawler_def)
  have g: "get_next_url ?q = (Some ?h, ?d)"
    by (simp add: get_next_url_def new_SEOCrawler_def m fcard_fempty)
  note T = crawl_page_budget
    [where cfg = site_config and env = site_env and yielded = "[?h, ?a]" and s' = s'
       and analyze = "\<lambda>u. Inr (new_PageResult u)" and s = ?n]
  note U = crawl_page_budget
    [where cfg = site_config and env = site_env and s = ?q and u = ?h and ?s1.0 = ?d]
  from T r m have 1: "crawled_urls s' = {|?h, ?a|}" by auto
  from T m
  have 2: "int (length (fst (run_audit site_env (\<lambda>u. Inr (new_PageResult u)) site_config))) \<le> 2"
    by simp
  from T e have 3: "get_next_url ?n = (None, ?n)" by blast
  from U g have 4: "?h |\<in>| crawled_urls (after_yield site_env ?d ?h)" by simp
  from r 1 2 3 4 show ?thesis by blast
qed

end
